theory Spec2Isabelle
  imports Complex_Main "HOL-Library.Word" "HOL-Library.Sublist"
begin

section \<open>The WebREPL connection of mpfshell (\<^verbatim>\<open>mp/conwebsock.py\<close>)\<close>

text \<open>
  \<^verbatim>\<open>ConWebsock\<close> offers a serial-port-like byte stream over a websocket. A worker
  thread runs the websocket's event loop and calls \<^verbatim>\<open>on_message\<close>, \<^verbatim>\<open>on_error\<close>
  and \<^verbatim>\<open>on_close\<close>; the owning thread calls \<^verbatim>\<open>read\<close>, \<^verbatim>\<open>wait_for_string\<close>,
  \<^verbatim>\<open>write\<close>, \<^verbatim>\<open>inWaiting\<close> and \<^verbatim>\<open>close\<close>. Every access of the worker
  thread to the queue happens under the condition variable's lock, so the owning
  thread sees the callbacks only between two of its own critical sections. The
  embedding is sequential: the state is passed explicitly, and what the worker
  thread and the clock do is given to each operation as a schedule.
\<close>

subsection \<open>Strings, bytes and the UTF-8 codec\<close>

text \<open>
  A Python \<^verbatim>\<open>str\<close> is a sequence of code points, a \<^verbatim>\<open>bytes\<close> value a sequence
  of octets. ASCII literals of the source are written as HOL strings and injected
  with \<open>ascii\<close>.
\<close>

type_synonym str = "nat list"
type_synonym byte = "8 word"
type_synonym bytes = "byte list"

definition ascii :: "string \<Rightarrow> str" where
  "ascii cs = map of_char cs"

text \<open>Exceptions that the modelled code can raise.\<close>

datatype exn =
    ConError str             \<comment> \<open>\<^verbatim>\<open>mp.conbase.ConError(message)\<close>\<close>
  | ValueError               \<comment> \<open>\<^verbatim>\<open>str.split\<close> with an empty separator\<close>
  | UnicodeEncodeError       \<comment> \<open>\<^verbatim>\<open>str.encode("utf-8")\<close> on a surrogate\<close>
  | TransportError str       \<comment> \<open>whatever the websocket library raises\<close>

text \<open>
  \<^verbatim>\<open>str.encode("utf-8")\<close>: one to four octets per code point; a surrogate
  (U+D800 to U+DFFF) is refused. No Python string holds a value above U+10FFFF; the
  model refuses those as well.
\<close>

definition utf8_cp :: "nat \<Rightarrow> exn + bytes" where
  "utf8_cp c =
     (if c < 0x80 then Inr [of_nat c]
      else if c < 0x800 then
        Inr [of_nat (0xC0 + c div 64), of_nat (0x80 + c mod 64)]
      else if 0xD800 \<le> c \<and> c \<le> 0xDFFF then Inl UnicodeEncodeError
      else if c < 0x10000 then
        Inr [of_nat (0xE0 + c div 4096), of_nat (0x80 + (c div 64) mod 64),
             of_nat (0x80 + c mod 64)]
      else if c < 0x110000 then
        Inr [of_nat (0xF0 + c div 262144), of_nat (0x80 + (c div 4096) mod 64),
             of_nat (0x80 + (c div 64) mod 64), of_nat (0x80 + c mod 64)]
      else Inl UnicodeEncodeError)"

fun utf8_encode :: "str \<Rightarrow> exn + bytes" where
  "utf8_encode [] = Inr []"
| "utf8_encode (c # cs) =
     (case utf8_cp c of
        Inl e \<Rightarrow> Inl e
      | Inr bs \<Rightarrow>
          (case utf8_encode cs of
             Inl e \<Rightarrow> Inl e
           | Inr rest \<Rightarrow> Inr (bs @ rest)))"

text \<open>
  \<^verbatim>\<open>data.find(sep)\<close>: the least index at which \<open>sep\<close> starts in \<open>data\<close>.
  \<^verbatim>\<open>sep in data\<close> holds when there is one; the empty string occurs at index 0.
\<close>

fun str_find :: "str \<Rightarrow> str \<Rightarrow> nat option" where
  "str_find sep [] = (if sep = [] then Some 0 else None)"
| "str_find sep (c # cs) =
     (if prefix sep (c # cs) then Some 0
      else map_option Suc (str_find sep cs))"

definition str_in :: "str \<Rightarrow> str \<Rightarrow> bool" where
  "str_in sep data = (str_find sep data \<noteq> None)"

text \<open>
  \<^verbatim>\<open>data.split(sep, 1)\<close>: at most one split, at the first occurrence of
  \<open>sep\<close>; an empty separator raises \<^verbatim>\<open>ValueError\<close>.
\<close>

definition str_split1 :: "str \<Rightarrow> str \<Rightarrow> exn + str list" where
  "str_split1 data sep =
     (if sep = [] then Inl ValueError
      else case str_find sep data of
             None \<Rightarrow> Inr [data]
           | Some i \<Rightarrow> Inr [take i data, drop (i + length sep) data])"

subsection \<open>The connection object and its environment\<close>

text \<open>
  The calls the object makes on its collaborators (the websocket and the condition
  variable) are recorded in \<open>calls\<close>, in program order.
\<close>

datatype call =
    WsSend str     \<comment> \<open>\<^verbatim>\<open>self.ws.send(data)\<close>\<close>
  | WsClose        \<comment> \<open>\<^verbatim>\<open>self.ws.close()\<close>\<close>
  | NotifyAll      \<comment> \<open>\<^verbatim>\<open>self.fifo_has_data.notify_all()\<close>\<close>
  | Wait real      \<comment> \<open>\<^verbatim>\<open>self.fifo_has_data.wait(remaining_time)\<close>\<close>

record conn =
  fifo :: "str list"      \<comment> \<open>\<^verbatim>\<open>self.fifo\<close>, leftmost element first\<close>
  timeout :: real         \<comment> \<open>\<^verbatim>\<open>self.timeout\<close>, in seconds\<close>
  ip :: str
  password :: str
  calls :: "call list"

text \<open>
  The state \<^verbatim>\<open>__init__\<close> sets up before it starts the thread and authenticates.
  The attribute \<^verbatim>\<open>timeout\<close> is first assigned by \<^verbatim>\<open>authenticate\<close>; \<open>t\<close> stands
  for the value that no code reads before.
\<close>

definition init :: "str \<Rightarrow> str \<Rightarrow> real \<Rightarrow> conn" where
  "init ip_arg password_arg t =
     \<lparr>fifo = [], timeout = t, ip = ip_arg, password = password_arg, calls = []\<rparr>"

text \<open>The callbacks of the worker thread.\<close>

definition on_open :: "conn \<Rightarrow> conn" where
  "on_open s = s"

definition on_message :: "conn \<Rightarrow> str \<Rightarrow> conn" where
  "on_message s message =
     s\<lparr>fifo := fifo s @ [message], calls := calls s @ [NotifyAll]\<rparr>"

definition on_error :: "conn \<Rightarrow> conn" where
  "on_error s = s\<lparr>calls := calls s @ [NotifyAll]\<rparr>"

definition on_close :: "conn \<Rightarrow> conn" where
  "on_close s = s\<lparr>calls := calls s @ [NotifyAll]\<rparr>"

datatype event = Message str | Error | Closed

fun deliver :: "conn \<Rightarrow> event \<Rightarrow> conn" where
  "deliver s (Message m) = on_message s m"
| "deliver s Error = on_error s"
| "deliver s Closed = on_close s"

text \<open>
  A tick is one observation by the owning thread: the callbacks the worker thread
  ran since the previous observation (while the lock was free, which includes the
  time spent in \<^verbatim>\<open>wait\<close>), and the value \<^verbatim>\<open>time.time()\<close> then returns. An
  operation consumes one tick for \<^verbatim>\<open>tstart\<close> and one for each turn of its loop.
  A schedule is a finite list of ticks; an operation that is still looping when
  the schedule ends has no result (\<open>None\<close>). Clock readings and the timeout are
  real numbers, in seconds; the readings need not increase, and the rounding of
  Python's floats is not modelled.
\<close>

type_synonym tick = "event list \<times> real"

definition arrive :: "conn \<Rightarrow> event list \<Rightarrow> conn" where
  "arrive s evs = foldl deliver s evs"

subsection \<open>\<^verbatim>\<open>wait_for_string\<close>\<close>

definition timeout_message :: "str \<Rightarrow> str" where
  "timeout_message string =
     ascii ''Timed out waiting for '' @ [39] @ string @ [39]"

text \<open>
  The \<^verbatim>\<open>while True\<close> loop. Python's \<^verbatim>\<open>return\<close> without a value returns
  \<^verbatim>\<open>None\<close>; the result type of the call is given by \<open>retval\<close>. Unpacking the
  result of \<^verbatim>\<open>split\<close> into two names raises \<^verbatim>\<open>ValueError\<close> unless it has two
  elements.
\<close>

datatype retval = PyNone | PyStr str

fun wait_loop ::
  "str \<Rightarrow> real \<Rightarrow> str \<Rightarrow> conn \<Rightarrow> tick list \<Rightarrow> ((exn + retval) \<times> conn \<times> tick list) option"
where
  "wait_loop string tstart data s [] = None"
| "wait_loop string tstart data s ((evs, now) # ticks) =
     (let s = arrive s evs;
          elapsed_time = now - tstart;
          remaining_time = timeout s - elapsed_time
      in if remaining_time < 0 then
           Some (Inl (ConError (timeout_message string)), s, ticks)
         else if fifo s \<noteq> [] then
           (let data = data @ hd (fifo s);
                s = s\<lparr>fifo := tl (fifo s)\<rparr>
            in if str_in string data then
                 (case str_split1 data string of
                    Inl e \<Rightarrow> Some (Inl e, s, ticks)
                  | Inr [_, after] \<Rightarrow>
                      Some (Inr PyNone, s\<lparr>fifo := after # fifo s\<rparr>, ticks)
                  | Inr _ \<Rightarrow> Some (Inl ValueError, s, ticks))
               else wait_loop string tstart data s ticks)
         else
           wait_loop string tstart data
             (s\<lparr>calls := calls s @ [Wait remaining_time]\<rparr>) ticks)"

fun wait_for_string ::
  "str \<Rightarrow> conn \<Rightarrow> tick list \<Rightarrow> ((exn + retval) \<times> conn \<times> tick list) option"
where
  "wait_for_string string s [] = None"
| "wait_for_string string s ((evs, tstart) # ticks) =
     wait_loop string tstart [] (arrive s evs) ticks"

subsection \<open>\<^verbatim>\<open>read\<close>, \<^verbatim>\<open>write\<close>, \<^verbatim>\<open>inWaiting\<close>, \<^verbatim>\<open>close\<close>\<close>

text \<open>The parameter \<^verbatim>\<open>size\<close> of \<^verbatim>\<open>read\<close> is \<open>sz\<close> here.\<close>

fun read_loop ::
  "int \<Rightarrow> real \<Rightarrow> str list \<Rightarrow> conn \<Rightarrow> tick list \<Rightarrow> (str list \<times> conn \<times> tick list) option"
where
  "read_loop sz tstart data s ticks =
     (if int (length data) < sz then
        (case ticks of
           [] \<Rightarrow> None
         | (evs, now) # ticks \<Rightarrow>
             (let s = arrive s evs;
                  elapsed_time = now - tstart;
                  remaining_time = timeout s - elapsed_time
              in if remaining_time < 0 then Some (data, s, ticks)
                 else if fifo s \<noteq> [] then
                   read_loop sz tstart (data @ [hd (fifo s)])
                     (s\<lparr>fifo := tl (fifo s)\<rparr>) ticks
                 else
                   read_loop sz tstart data
                     (s\<lparr>calls := calls s @ [Wait remaining_time]\<rparr>) ticks))
      else Some (data, s, ticks))"

fun read ::
  "int \<Rightarrow> conn \<Rightarrow> tick list \<Rightarrow> ((exn + bytes) \<times> conn \<times> tick list) option"
where
  "read sz s [] = None"
| "read sz s ((evs, tstart) # ticks) =
     (case read_loop sz tstart [] (arrive s evs) ticks of
        None \<Rightarrow> None
      | Some (data, s, ticks) \<Rightarrow> Some (utf8_encode (concat data), s, ticks))"

text \<open>
  \<^verbatim>\<open>self.ws.send\<close> and \<^verbatim>\<open>self.ws.close\<close> belong to the websocket library; whether
  such a call raises is an input of the operation that makes it (\<open>None\<close>: it
  returns).
\<close>

definition ws_send :: "exn option \<Rightarrow> conn \<Rightarrow> str \<Rightarrow> (exn + unit) \<times> conn" where
  "ws_send outcome s data =
     ((case outcome of None \<Rightarrow> Inr () | Some e \<Rightarrow> Inl e),
      s\<lparr>calls := calls s @ [WsSend data]\<rparr>)"

text \<open>\<^verbatim>\<open>write\<close>, named \<open>write_data\<close> here.\<close>

definition write_data :: "exn option \<Rightarrow> conn \<Rightarrow> str \<Rightarrow> (exn + int) \<times> conn" where
  "write_data outcome s data =
     (case ws_send outcome s data of
        (Inl e, s) \<Rightarrow> (Inl e, s)
      | (Inr _, s) \<Rightarrow> (Inr (int (length data)), s))"

definition inWaiting :: "conn \<Rightarrow> int" where
  "inWaiting s = int (length (fifo s))"

definition survives_soft_reset :: "conn \<Rightarrow> bool" where
  "survives_soft_reset s = False"

text \<open>
  \<^verbatim>\<open>close\<close>: the \<^verbatim>\<open>finally\<close> clause runs on both exits of the \<^verbatim>\<open>try\<close> block, and
  an exception of the block is raised again after it.
\<close>

definition close :: "exn option \<Rightarrow> conn \<Rightarrow> (exn + unit) \<times> conn" where
  "close outcome s =
     (let s = s\<lparr>calls := calls s @ [WsClose]\<rparr>;
          raised = outcome;
          s = s\<lparr>calls := calls s @ [NotifyAll]\<rparr>
      in case raised of
           None \<Rightarrow> (Inr (), s)
         | Some e \<Rightarrow> (Inl e, s))"

subsection \<open>\<^verbatim>\<open>authenticate\<close>\<close>

definition authenticate ::
  "exn option \<Rightarrow> conn \<Rightarrow> tick list \<Rightarrow> ((exn + unit) \<times> conn \<times> tick list) option"
where
  "authenticate send_outcome s ticks =
     (let s = s\<lparr>timeout := 5\<rparr> in
      case wait_for_string (ascii ''Password: '') s ticks of
        None \<Rightarrow> None
      | Some (Inl e, s, ticks) \<Rightarrow> Some (Inl e, s, ticks)
      | Some (Inr _, s, ticks) \<Rightarrow>
          (case ws_send send_outcome s (password s @ ascii [CHR 0x0D]) of
             (Inl e, s) \<Rightarrow> Some (Inl e, s, ticks)
           | (Inr _, s) \<Rightarrow>
               (case wait_for_string (ascii ''WebREPL connected'') s ticks of
                  None \<Rightarrow> None
                | Some (Inl e, s, ticks) \<Rightarrow> Some (Inl e, s, ticks)
                | Some (Inr _, s, ticks) \<Rightarrow>
                    Some (Inr (), s\<lparr>timeout := 1\<rparr>, ticks))))"

text \<open>
  The constructor \<^verbatim>\<open>ConWebsock(ip, password)\<close>: \<^verbatim>\<open>__init__\<close> builds the state,
  starts the worker thread and authenticates; an exception of \<^verbatim>\<open>authenticate\<close>
  leaves it.
\<close>

definition ConWebsock ::
  "str \<Rightarrow> str \<Rightarrow> real \<Rightarrow> exn option \<Rightarrow> tick list \<Rightarrow> ((exn + unit) \<times> conn \<times> tick list) option"
where
  "ConWebsock ip_arg password_arg t send_outcome ticks =
     authenticate send_outcome (init ip_arg password_arg t) ticks"

subsection \<open>Vocabulary of the properties\<close>

text \<open>The chunks a list of events hands to \<^verbatim>\<open>on_message\<close>, in order.\<close>

fun msgs :: "event list \<Rightarrow> str list" where
  "msgs [] = []"
| "msgs (Message m # evs) = m # msgs evs"
| "msgs (e # evs) = msgs evs"

definition arrived :: "tick list \<Rightarrow> str list" where
  "arrived ticks = concat (map (\<lambda>(evs, now). msgs evs) ticks)"

text \<open>The frames handed to \<^verbatim>\<open>self.ws.send\<close>, in order.\<close>

fun sent :: "call list \<Rightarrow> str list" where
  "sent [] = []"
| "sent (WsSend d # cs) = d # sent cs"
| "sent (c # cs) = sent cs"

text \<open>
  The test \<^verbatim>\<open>remaining_time < 0\<close> of both loops, for a call that started at
  \<open>tstart\<close> and reads the clock at \<open>now\<close>.
\<close>

definition expired :: "conn \<Rightarrow> real \<Rightarrow> real \<Rightarrow> bool" where
  "expired s tstart now = (timeout s - (now - tstart) < 0)"

text \<open>Unicode scalar values: the code points a decoded text frame can hold.\<close>

definition scalar :: "nat \<Rightarrow> bool" where
  "scalar c = (c < 0xD800 \<or> (0xDFFF < c \<and> c < 0x110000))"

text \<open>
  A caller that issues \<^verbatim>\<open>read\<close> once for each requested size, one call after the
  other, and collects the results; an exception ends it.
\<close>

fun read_seq ::
  "int list \<Rightarrow> conn \<Rightarrow> tick list \<Rightarrow> ((exn + bytes list) \<times> conn \<times> tick list) option"
where
  "read_seq [] s ticks = Some (Inr [], s, ticks)"
| "read_seq (sz # szs) s ticks =
     (case read sz s ticks of
        None \<Rightarrow> None
      | Some (Inl e, s, ticks) \<Rightarrow> Some (Inl e, s, ticks)
      | Some (Inr out, s, ticks) \<Rightarrow>
          (case read_seq szs s ticks of
             None \<Rightarrow> None
           | Some (Inl e, s, ticks) \<Rightarrow> Some (Inl e, s, ticks)
           | Some (Inr outs, s, ticks) \<Rightarrow> Some (Inr (out # outs), s, ticks)))"

subsection \<open>Fixtures for the examples\<close>

text \<open>A connection with the given queue and timeout, and a schedule of clock
  readings during which the worker thread delivers nothing.\<close>

definition queued :: "str list \<Rightarrow> real \<Rightarrow> conn" where
  "queued q t =
     \<lparr>fifo = q, timeout = t, ip = ascii ''192.168.4.1'', password = ascii ''secret'',
      calls = []\<rparr>"

definition quiet :: "real list \<Rightarrow> tick list" where
  "quiet ts = map (\<lambda>t. ([], t)) ts"

section \<open>Properties\<close>

subsection \<open>Events and the queue\<close>

lemma arrive_Nil [simp]: "arrive s [] = s"
  by (simp add: arrive_def)

lemma arrive_Cons [simp]: "arrive s (e # evs) = arrive (deliver s e) evs"
  by (simp add: arrive_def)

lemma deliver_fields [simp]:
  "timeout (deliver s e) = timeout s"
  "password (deliver s e) = password s"
  "ip (deliver s e) = ip s"
  "fifo (deliver s e) = fifo s @ msgs [e]"
  by (cases e; simp add: on_message_def on_error_def on_close_def)+

lemma arrive_fields [simp]:
  "timeout (arrive s evs) = timeout s"
  "password (arrive s evs) = password s"
  "ip (arrive s evs) = ip s"
  by (induction evs arbitrary: s; simp)+

lemma msgs_Cons: "msgs (e # evs) = msgs [e] @ msgs evs"
  by (cases e) simp_all

lemma fifo_arrive [simp]: "fifo (arrive s evs) = fifo s @ msgs evs"
proof (induction evs arbitrary: s)
  case Nil
  show ?case by simp
next
  case (Cons e evs)
  show ?case using Cons.IH [of "deliver s e"] msgs_Cons [of e evs] by simp
qed

lemma arrived_simps [simp]:
  "arrived [] = []"
  "arrived ((evs, now) # ticks) = msgs evs @ arrived ticks"
  "arrived (xs @ ys) = arrived xs @ arrived ys"
  by (simp_all add: arrived_def)

lemma utf8_cp_not_ConError: "utf8_cp c \<noteq> Inl (ConError m)"
  by (simp add: utf8_cp_def)

lemma utf8_encode_not_ConError: "utf8_encode cs \<noteq> Inl (ConError m)"
  by (induction cs) (auto simp: utf8_cp_not_ConError split: sum.splits)

lemma utf8_encode_append:
  "utf8_encode (xs @ ys) =
     (case utf8_encode xs of
        Inl e \<Rightarrow> Inl e
      | Inr a \<Rightarrow> (case utf8_encode ys of Inl e \<Rightarrow> Inl e | Inr b \<Rightarrow> Inr (a @ b)))"
  by (induction xs) (auto split: sum.splits)

lemma utf8_encode_append_Inr:
  "utf8_encode (xs @ ys) = Inr c \<longleftrightarrow>
     (\<exists>a b. utf8_encode xs = Inr a \<and> utf8_encode ys = Inr b \<and> c = a @ b)"
  by (auto simp: utf8_encode_append split: sum.splits)



lemma utf8_cp_scalar: "scalar c \<Longrightarrow> \<exists>bs. utf8_cp c = Inr bs"
  by (auto simp: scalar_def utf8_cp_def)

lemma utf8_encode_scalar: "list_all scalar cs \<Longrightarrow> \<exists>bs. utf8_encode cs = Inr bs"
proof (induction cs)
  case Nil
  show ?case by simp
next
  case (Cons c cs)
  then obtain b bs where "utf8_cp c = Inr b" "utf8_encode cs = Inr bs"
    using utf8_cp_scalar [of c] by auto
  then show ?case by simp
qed

declare read_loop.simps [simp del]

lemma read_loop_enough:
  "sz \<le> int (length data) \<Longrightarrow> read_loop sz tstart data s ticks = Some (data, s, ticks)"
  by (subst read_loop.simps) simp

lemma read_loop_Nil:
  "int (length data) < sz \<Longrightarrow> read_loop sz tstart data s [] = None"
  by (subst read_loop.simps) simp

lemma read_loop_Cons:
  "int (length data) < sz \<Longrightarrow>
   read_loop sz tstart data s ((evs, now) # ticks) =
     (if expired s tstart now then Some (data, arrive s evs, ticks)
      else if fifo (arrive s evs) \<noteq> [] then
        read_loop sz tstart (data @ [hd (fifo (arrive s evs))])
          ((arrive s evs)\<lparr>fifo := tl (fifo (arrive s evs))\<rparr>) ticks
      else
        read_loop sz tstart data
          ((arrive s evs)\<lparr>calls := calls (arrive s evs) @ [Wait (timeout s - (now - tstart))]\<rparr>) ticks)"
  by (subst read_loop.simps) (simp add: expired_def Let_def)

lemma read_loop_fifo:
  "read_loop sz tstart data s ticks = Some (data', s', rest) \<Longrightarrow>
   \<exists>used popped. ticks = used @ rest \<and> data' = data @ popped \<and>
      popped @ fifo s' = fifo s @ arrived used \<and> timeout s' = timeout s \<and>
      password s' = password s \<and> ip s' = ip s"
proof (induction ticks arbitrary: data s)
  case Nil
  then show ?case
    by (cases "int (length data) < sz") (simp_all add: read_loop_Nil read_loop_enough)
next
  case (Cons tick ticks)
  obtain evs now where tick: "tick = (evs, now)" by (cases tick)
  show ?case
  proof (cases "int (length data) < sz")
    case False
    with Cons.prems show ?thesis by (simp add: read_loop_enough)
  next
    case less: True
    let ?s = "arrive s evs"
    consider (exp) "expired s tstart now"
      | (pop) "\<not> expired s tstart now" "fifo ?s \<noteq> []"
      | (wait) "\<not> expired s tstart now" "fifo ?s = []" by blast
    then show ?thesis
    proof cases
      case exp
      with Cons.prems less tick have "data' = data" "s' = ?s" "rest = ticks"
        by (simp_all add: read_loop_Cons)
      then have "tick # ticks = [tick] @ rest \<and> data' = data @ [] \<and>
          [] @ fifo s' = fifo s @ arrived [tick] \<and> timeout s' = timeout s \<and>
          password s' = password s \<and> ip s' = ip s"
        by (simp add: tick)
      then show ?thesis by blast
    next
      case pop
      let ?c = "hd (fifo ?s)"
      let ?s1 = "?s\<lparr>fifo := tl (fifo ?s)\<rparr>"
      from Cons.prems less tick pop
      have "read_loop sz tstart (data @ [?c]) ?s1 ticks = Some (data', s', rest)"
        by (simp add: read_loop_Cons)
      from Cons.IH [OF this] obtain used popped where
        u: "ticks = used @ rest" "data' = (data @ [?c]) @ popped"
           "popped @ fifo s' = fifo ?s1 @ arrived used" "timeout s' = timeout ?s1"
           "password s' = password ?s1" "ip s' = ip ?s1"
        by blast
      from pop(2) have "?c # tl (fifo ?s) = fifo s @ msgs evs"
        by simp
      with u have "tick # ticks = (tick # used) @ rest \<and> data' = data @ (?c # popped) \<and>
          (?c # popped) @ fifo s' = fifo s @ arrived (tick # used) \<and> timeout s' = timeout s \<and>
          password s' = password s \<and> ip s' = ip s"
        by (simp add: tick)
      then show ?thesis by blast
    next
      case wait
      let ?s1 = "?s\<lparr>calls := calls ?s @ [Wait (timeout s - (now - tstart))]\<rparr>"
      from Cons.prems less tick wait
      have "read_loop sz tstart data ?s1 ticks = Some (data', s', rest)"
        by (simp add: read_loop_Cons)
      from Cons.IH [OF this] obtain used popped where
        u: "ticks = used @ rest" "data' = data @ popped"
           "popped @ fifo s' = fifo ?s1 @ arrived used" "timeout s' = timeout ?s1"
           "password s' = password ?s1" "ip s' = ip ?s1"
        by blast
      then have "tick # ticks = (tick # used) @ rest \<and> data' = data @ popped \<and>
          popped @ fifo s' = fifo s @ arrived (tick # used) \<and> timeout s' = timeout s \<and>
          password s' = password s \<and> ip s' = ip s"
        using wait(2) by (simp add: tick)
      then show ?thesis by blast
    qed
  qed
qed

lemma fifo_pushes: "fifo (foldl on_message s chunks) = fifo s @ chunks"
  by (induction chunks arbitrary: s) (simp_all add: on_message_def)

subsection \<open>The number of queued chunks\<close>

text \<open>
  C7: pushing K chunks through \<^verbatim>\<open>on_message\<close>, with no read in between, makes
  \<^verbatim>\<open>inWaiting\<close> return K on the queue the constructor creates, and raises it by K
  on any queue: it counts chunks, not bytes.
\<close>

theorem inWaiting_counts_chunks:
  "inWaiting (foldl on_message (init ip_arg password_arg t) chunks) = int (length chunks) \<and>
   inWaiting (foldl on_message s chunks) = inWaiting s + int (length chunks)"
  by (simp add: inWaiting_def fifo_pushes init_def)

subsection \<open>The loop of \<^verbatim>\<open>wait_for_string\<close>\<close>

lemma expired_cong: "timeout a = timeout b \<Longrightarrow> expired a tstart now = expired b tstart now"
  by (simp add: expired_def)

lemma str_split1_found:
  "sep \<noteq> [] \<Longrightarrow> str_find sep data = Some i \<Longrightarrow>
   str_split1 data sep = Inr [take i data, drop (i + length sep) data]"
  by (simp add: str_split1_def)

lemma wait_loop_Cons:
  "wait_loop string tstart data s ((evs, now) # ticks) =
     (if expired s tstart now then
        Some (Inl (ConError (timeout_message string)), arrive s evs, ticks)
      else
        (case fifo s @ msgs evs of
           [] \<Rightarrow>
             wait_loop string tstart data
               ((arrive s evs)\<lparr>calls :=
                  calls (arrive s evs) @ [Wait (timeout s - (now - tstart))]\<rparr>) ticks
         | c # cs \<Rightarrow>
             (case str_find string (data @ c) of
                None \<Rightarrow> wait_loop string tstart (data @ c) ((arrive s evs)\<lparr>fifo := cs\<rparr>) ticks
              | Some i \<Rightarrow>
                  if string = [] then Some (Inl ValueError, (arrive s evs)\<lparr>fifo := cs\<rparr>, ticks)
                  else
                    Some (Inr PyNone,
                      (arrive s evs)\<lparr>fifo := drop (i + length string) (data @ c) # cs\<rparr>,
                      ticks))))"
  by (auto simp: wait_loop.simps expired_def Let_def str_in_def str_split1_def
        split: option.splits list.splits)

declare wait_loop.simps [simp del]

lemma wait_loop_outcome:
  "wait_loop string tstart data s ticks = Some (r, s', rest) \<Longrightarrow>
   \<exists>used popped q. ticks = used @ rest \<and> used \<noteq> [] \<and>
      fifo s @ arrived used = popped @ q \<and>
      timeout s' = timeout s \<and> password s' = password s \<and> ip s' = ip s \<and>
      (\<forall>tk \<in> set (butlast used). \<not> expired s tstart (snd tk)) \<and>
      (\<forall>k. 0 < k \<and> k < length popped \<longrightarrow>
           \<not> str_in string (data @ concat (take k popped))) \<and>
      (case r of
         Inl e \<Rightarrow>
           fifo s' = q \<and>
           (if expired s tstart (snd (last used))
            then e = ConError (timeout_message string)
            else e = ValueError \<and> string = [] \<and> popped \<noteq> [])
       | Inr v \<Rightarrow>
           v = PyNone \<and> string \<noteq> [] \<and> \<not> expired s tstart (snd (last used)) \<and>
           popped \<noteq> [] \<and>
           (\<exists>i. str_find string (data @ concat popped) = Some i \<and>
                fifo s' = drop (i + length string) (data @ concat popped) # q))"
  (is "_ \<Longrightarrow> \<exists>used popped q. ?Q data s ticks used popped q")
proof (induction ticks arbitrary: data s)
  case Nil
  then show ?case by (simp add: wait_loop.simps)
next
  case (Cons tick ticks)
  obtain evs now where tick: "tick = (evs, now)" by (cases tick)
  let ?s = "arrive s evs"
  note run = Cons.prems [unfolded tick wait_loop_Cons]
  have e: "expired (?s\<lparr>fifo := f\<rparr>) tstart = expired s tstart"
    "expired (?s\<lparr>calls := g\<rparr>) tstart = expired s tstart" for f g
    by (rule ext, simp add: expired_def)+
  consider (exp) "expired s tstart now"
    | (wait) "\<not> expired s tstart now" "fifo s @ msgs evs = []"
    | (found) c cs i where "\<not> expired s tstart now" "fifo s @ msgs evs = c # cs"
        "str_find string (data @ c) = Some i"
    | (more) c cs where "\<not> expired s tstart now" "fifo s @ msgs evs = c # cs"
        "str_find string (data @ c) = None"
  proof (cases "fifo s @ msgs evs")
    case Nil
    with that show ?thesis by blast
  next
    case (Cons c cs)
    with that show ?thesis by (cases "str_find string (data @ c)") blast+
  qed
  then show ?case
  proof cases
    case exp
    with run have "r = Inl (ConError (timeout_message string))" "s' = ?s" "rest = ticks"
      by simp_all
    with exp have "?Q data s (tick # ticks) [tick] [] (fifo s @ msgs evs)"
      by (simp add: tick)
    then show ?thesis by blast
  next
    case found
    show ?thesis
    proof (cases "string = []")
      case True
      with run found have "r = Inl ValueError" "s' = ?s\<lparr>fifo := cs\<rparr>" "rest = ticks"
        by simp_all
      with found True have "?Q data s (tick # ticks) [tick] [c] cs"
        by (simp add: tick)
      then show ?thesis by blast
    next
      case False
      with run found have "r = Inr PyNone"
        "s' = ?s\<lparr>fifo := drop (i + length string) (data @ c) # cs\<rparr>" "rest = ticks"
        by simp_all
      with found False have "?Q data s (tick # ticks) [tick] [c] cs"
        by (simp add: tick)
      then show ?thesis by blast
    qed
  next
    case wait
    let ?s1 = "?s\<lparr>calls := calls ?s @ [Wait (timeout s - (now - tstart))]\<rparr>"
    from run wait have "wait_loop string tstart data ?s1 ticks = Some (r, s', rest)"
      by simp
    from Cons.IH [OF this] obtain used popped q where q: "?Q data ?s1 ticks used popped q"
      by blast
    from q have u: "used \<noteq> []" and q1: "ticks = used @ rest"
      and q3: "fifo ?s1 @ arrived used = popped @ q"
      and q4: "timeout s' = timeout ?s1" "password s' = password ?s1" "ip s' = ip ?s1"
      and q7: "\<forall>tk \<in> set (butlast used). \<not> expired ?s1 tstart (snd tk)"
      and q8: "\<forall>k. 0 < k \<and> k < length popped \<longrightarrow>
           \<not> str_in string (data @ concat (take k popped))"
      by blast+
    have "?Q data s (tick # ticks) (tick # used) popped q"
    proof (intro conjI)
      show "tick # ticks = (tick # used) @ rest" using q1 by simp
      show "tick # used \<noteq> []" by simp
      show "fifo s @ arrived (tick # used) = popped @ q" using q3 wait(2) by (simp add: tick)
      show "timeout s' = timeout s" "password s' = password s" "ip s' = ip s"
        using q4 by simp_all
      show "\<forall>tk \<in> set (butlast (tick # used)). \<not> expired s tstart (snd tk)"
        using q7 u wait(1) by (simp add: tick e)
      show "\<forall>k. 0 < k \<and> k < length popped \<longrightarrow>
           \<not> str_in string (data @ concat (take k popped))" by (rule q8)
      from q have "case r of
         Inl e \<Rightarrow>
           fifo s' = q \<and>
           (if expired ?s1 tstart (snd (last used))
            then e = ConError (timeout_message string)
            else e = ValueError \<and> string = [] \<and> popped \<noteq> [])
       | Inr v \<Rightarrow>
           v = PyNone \<and> string \<noteq> [] \<and> \<not> expired ?s1 tstart (snd (last used)) \<and>
           popped \<noteq> [] \<and>
           (\<exists>i. str_find string (data @ concat popped) = Some i \<and>
                fifo s' = drop (i + length string) (data @ concat popped) # q)"
        by blast
      then show "case r of
         Inl e \<Rightarrow>
           fifo s' = q \<and>
           (if expired s tstart (snd (last (tick # used)))
            then e = ConError (timeout_message string)
            else e = ValueError \<and> string = [] \<and> popped \<noteq> [])
       | Inr v \<Rightarrow>
           v = PyNone \<and> string \<noteq> [] \<and> \<not> expired s tstart (snd (last (tick # used))) \<and>
           popped \<noteq> [] \<and>
           (\<exists>i. str_find string (data @ concat popped) = Some i \<and>
                fifo s' = drop (i + length string) (data @ concat popped) # q)"
        using u by (cases r; simp add: e)
    qed
    then show ?thesis by blast
  next
    case more
    let ?s1 = "?s\<lparr>fifo := cs\<rparr>"
    from run more have "wait_loop string tstart (data @ c) ?s1 ticks = Some (r, s', rest)"
      by simp
    from Cons.IH [OF this] obtain used popped q where q: "?Q (data @ c) ?s1 ticks used popped q"
      by blast
    from q have u: "used \<noteq> []" and q1: "ticks = used @ rest"
      and q3: "fifo ?s1 @ arrived used = popped @ q"
      and q4: "timeout s' = timeout ?s1" "password s' = password ?s1" "ip s' = ip ?s1"
      and q7: "\<forall>tk \<in> set (butlast used). \<not> expired ?s1 tstart (snd tk)"
      and q8: "\<forall>k. 0 < k \<and> k < length popped \<longrightarrow>
           \<not> str_in string ((data @ c) @ concat (take k popped))"
      by blast+
    have "?Q data s (tick # ticks) (tick # used) (c # popped) q"
    proof (intro conjI)
      show "tick # ticks = (tick # used) @ rest" using q1 by simp
      show "tick # used \<noteq> []" by simp
      have "fifo s @ arrived (tick # used) = (fifo s @ msgs evs) @ arrived used"
        by (simp add: tick)
      also have "\<dots> = (c # cs) @ arrived used"
        by (simp only: more(2))
      also have "\<dots> = (c # popped) @ q"
        using q3 by simp
      finally show "fifo s @ arrived (tick # used) = (c # popped) @ q" .
      show "timeout s' = timeout s" "password s' = password s" "ip s' = ip s"
        using q4 by simp_all
      show "\<forall>tk \<in> set (butlast (tick # used)). \<not> expired s tstart (snd tk)"
        using q7 u more(1) by (simp add: tick e)
      show "\<forall>k. 0 < k \<and> k < length (c # popped) \<longrightarrow>
           \<not> str_in string (data @ concat (take k (c # popped)))"
      proof (intro allI impI)
        fix k assume k: "0 < k \<and> k < length (c # popped)"
        then obtain k' where k': "k = Suc k'" by (cases k) auto
        show "\<not> str_in string (data @ concat (take k (c # popped)))"
        proof (cases "k' = 0")
          case True
          with k' more(3) show ?thesis by (simp add: str_in_def)
        next
          case False
          with k k' have "0 < k' \<and> k' < length popped" by simp
          with q8 have "\<not> str_in string ((data @ c) @ concat (take k' popped))" by blast
          with k' show ?thesis by simp
        qed
      qed
      from q have "case r of
         Inl e \<Rightarrow>
           fifo s' = q \<and>
           (if expired ?s1 tstart (snd (last used))
            then e = ConError (timeout_message string)
            else e = ValueError \<and> string = [] \<and> popped \<noteq> [])
       | Inr v \<Rightarrow>
           v = PyNone \<and> string \<noteq> [] \<and> \<not> expired ?s1 tstart (snd (last used)) \<and>
           popped \<noteq> [] \<and>
           (\<exists>i. str_find string ((data @ c) @ concat popped) = Some i \<and>
                fifo s' = drop (i + length string) ((data @ c) @ concat popped) # q)"
        by blast
      then show "case r of
         Inl e \<Rightarrow>
           fifo s' = q \<and>
           (if expired s tstart (snd (last (tick # used)))
            then e = ConError (timeout_message string)
            else e = ValueError \<and> string = [] \<and> c # popped \<noteq> [])
       | Inr v \<Rightarrow>
           v = PyNone \<and> string \<noteq> [] \<and> \<not> expired s tstart (snd (last (tick # used))) \<and>
           c # popped \<noteq> [] \<and>
           (\<exists>i. str_find string (data @ concat (c # popped)) = Some i \<and>
                fifo s' = drop (i + length string) (data @ concat (c # popped)) # q)"
        using u by (cases r; simp add: e del: drop_append)
    qed
    then show ?thesis by blast
  qed
qed

subsection \<open>Substring search, and when the loops return\<close>

lemma str_find_first:
  "str_find sep data = Some i \<Longrightarrow>
   data = take i data @ sep @ drop (i + length sep) data \<and>
   (\<forall>j<i. \<not> prefix sep (drop j data))"
proof (induction data arbitrary: i)
  case Nil
  then show ?case by (simp split: if_splits)
next
  case (Cons c cs)
  show ?case
  proof (cases "prefix sep (c # cs)")
    case True
    with Cons.prems have "i = 0" by simp
    with True show ?thesis by (auto simp: prefix_def)
  next
    case False
    with Cons.prems obtain i' where i': "str_find sep cs = Some i'" "i = Suc i'"
      by auto
    from Cons.IH [OF i'(1)] have
      ih: "cs = take i' cs @ sep @ drop (i' + length sep) cs"
          "\<forall>j<i'. \<not> prefix sep (drop j cs)" by blast+
    have "\<not> prefix sep (drop j (c # cs))" if "j < i" for j
    proof (cases j)
      case 0
      with False show ?thesis by simp
    next
      case (Suc j')
      with that i' ih(2) show ?thesis by simp
    qed
    with ih(1) i'(2) show ?thesis by simp
  qed
qed

lemma str_find_None: "str_find sep data = None \<Longrightarrow> \<not> prefix sep (drop j data)"
proof (induction data arbitrary: j)
  case Nil
  then show ?case by (simp split: if_splits)
next
  case (Cons c cs)
  then show ?case by (cases j) (auto split: if_splits)
qed

lemma str_in_iff: "str_in sep data \<longleftrightarrow> (\<exists>a b. data = a @ sep @ b)"
proof
  assume "str_in sep data"
  then obtain i where "str_find sep data = Some i" by (auto simp: str_in_def)
  from str_find_first [OF this] show "\<exists>a b. data = a @ sep @ b" by blast
next
  assume "\<exists>a b. data = a @ sep @ b"
  then obtain a b where d: "data = a @ sep @ b" by blast
  show "str_in sep data"
  proof (rule ccontr)
    assume "\<not> str_in sep data"
    then have "str_find sep data = None" by (simp add: str_in_def)
    from str_find_None [OF this, of "length a"] d show False by simp
  qed
qed

lemma wait_loop_returns:
  "\<exists>tk \<in> set ticks. expired s tstart (snd tk) \<Longrightarrow>
   \<exists>res. wait_loop string tstart data s ticks = Some res"
proof (induction ticks arbitrary: data s)
  case Nil
  then show ?case by simp
next
  case (Cons tick ticks)
  obtain evs now where tick: "tick = (evs, now)" by (cases tick)
  have e: "expired ((arrive s evs)\<lparr>fifo := f\<rparr>) tstart = expired s tstart"
    "expired ((arrive s evs)\<lparr>calls := g\<rparr>) tstart = expired s tstart" for f g
    by (rule ext, simp add: expired_def)+
  show ?case
  proof (cases "expired s tstart now")
    case True
    then show ?thesis by (simp add: tick wait_loop_Cons)
  next
    case False
    with Cons.prems tick have later: "\<exists>tk \<in> set ticks. expired s tstart (snd tk)"
      by auto
    have "\<exists>res. wait_loop string tstart d (arrive s evs\<lparr>fifo := f\<rparr>) ticks = Some res"
      "\<exists>res. wait_loop string tstart d (arrive s evs\<lparr>calls := g\<rparr>) ticks = Some res"
      for d f g
      by (rule Cons.IH, simp add: e later)+
    with False show ?thesis
      by (simp add: tick wait_loop_Cons split: list.splits option.splits)
  qed
qed

lemma read_loop_returns:
  "\<exists>tk \<in> set ticks. expired s tstart (snd tk) \<Longrightarrow>
   \<exists>res. read_loop sz tstart data s ticks = Some res"
proof (induction ticks arbitrary: data s)
  case Nil
  then show ?case by simp
next
  case (Cons tick ticks)
  obtain evs now where tick: "tick = (evs, now)" by (cases tick)
  have e: "expired ((arrive s evs)\<lparr>fifo := f\<rparr>) tstart = expired s tstart"
    "expired ((arrive s evs)\<lparr>calls := g\<rparr>) tstart = expired s tstart" for f g
    by (rule ext, simp add: expired_def)+
  show ?case
  proof (cases "int (length data) < sz")
    case False
    then show ?thesis by (simp add: read_loop_enough)
  next
    case less: True
    show ?thesis
    proof (cases "expired s tstart now")
      case True
      with less show ?thesis by (simp add: tick read_loop_Cons)
    next
      case False
      with Cons.prems tick have later: "\<exists>tk \<in> set ticks. expired s tstart (snd tk)"
        by auto
      have "\<exists>res. read_loop sz tstart d (arrive s evs\<lparr>fifo := f\<rparr>) ticks = Some res"
        "\<exists>res. read_loop sz tstart d (arrive s evs\<lparr>calls := g\<rparr>) ticks = Some res"
        for d f g
        by (rule Cons.IH, simp add: e later)+
      with False less show ?thesis
        by (simp add: tick read_loop_Cons)
    qed
  qed
qed

lemma read_loop_short:
  "read_loop sz tstart data s ticks = Some (data', s', rest) \<Longrightarrow>
   int (length data') \<le> max sz (int (length data)) \<and>
   (int (length data') < sz \<longrightarrow>
      (\<exists>used. ticks = used @ rest \<and> used \<noteq> [] \<and> expired s tstart (snd (last used)) \<and>
         (\<forall>tk \<in> set (butlast used). \<not> expired s tstart (snd tk))))"
proof (induction ticks arbitrary: data s)
  case Nil
  then show ?case
    by (cases "int (length data) < sz") (simp_all add: read_loop_Nil read_loop_enough)
next
  case (Cons tick ticks)
  obtain evs now where tick: "tick = (evs, now)" by (cases tick)
  have e: "expired ((arrive s evs)\<lparr>fifo := f\<rparr>) tstart = expired s tstart"
    "expired ((arrive s evs)\<lparr>calls := g\<rparr>) tstart = expired s tstart" for f g
    by (rule ext, simp add: expired_def)+
  show ?case
  proof (cases "int (length data) < sz")
    case False
    with Cons.prems show ?thesis by (simp add: read_loop_enough)
  next
    case less: True
    show ?thesis
    proof (cases "expired s tstart now")
      case True
      with Cons.prems less tick have r: "data' = data" "rest = ticks"
        by (simp_all add: read_loop_Cons)
      from True r have "tick # ticks = [tick] @ rest \<and> [tick] \<noteq> [] \<and>
          expired s tstart (snd (last [tick])) \<and>
          (\<forall>tk \<in> set (butlast [tick]). \<not> expired s tstart (snd tk))"
        by (simp add: tick)
      then have "\<exists>used. tick # ticks = used @ rest \<and> used \<noteq> [] \<and>
          expired s tstart (snd (last used)) \<and>
          (\<forall>tk \<in> set (butlast used). \<not> expired s tstart (snd tk))"
        by blast
      moreover from r less have "int (length data') \<le> max sz (int (length data))"
        by simp
      ultimately show ?thesis by blast
    next
      case False
      let ?s = "arrive s evs"
      from Cons.prems less tick False obtain d s1 where
        step: "read_loop sz tstart d s1 ticks = Some (data', s', rest)"
          "expired s1 tstart = expired s tstart" "length d \<le> Suc (length data)"
          "length data \<le> length d"
        by (cases "fifo ?s \<noteq> []") (simp_all add: read_loop_Cons e del: fifo_arrive)
      from Cons.IH [OF step(1)] have
        ih: "int (length data') \<le> max sz (int (length d))"
          "int (length data') < sz \<longrightarrow>
            (\<exists>used. ticks = used @ rest \<and> used \<noteq> [] \<and> expired s tstart (snd (last used)) \<and>
              (\<forall>tk \<in> set (butlast used). \<not> expired s tstart (snd tk)))"
        by (simp_all add: step(2))
      from ih(1) step(3) less have b: "int (length data') \<le> max sz (int (length data))"
        by simp
      have "\<exists>used. tick # ticks = used @ rest \<and> used \<noteq> [] \<and>
          expired s tstart (snd (last used)) \<and>
          (\<forall>tk \<in> set (butlast used). \<not> expired s tstart (snd tk))"
        if "int (length data') < sz"
      proof -
        from ih(2) that obtain used where u: "ticks = used @ rest" "used \<noteq> []"
          "expired s tstart (snd (last used))"
          "\<forall>tk \<in> set (butlast used). \<not> expired s tstart (snd tk)" by blast
        with False have "tick # ticks = (tick # used) @ rest \<and> tick # used \<noteq> [] \<and>
          expired s tstart (snd (last (tick # used))) \<and>
          (\<forall>tk \<in> set (butlast (tick # used)). \<not> expired s tstart (snd tk))"
          by (simp add: tick)
        then show ?thesis by blast
      qed
      with b show ?thesis by blast
    qed
  qed
qed

subsection \<open>The clock and the timeout message\<close>

lemma expired_arrive [simp]: "expired (arrive s evs) tstart now = expired s tstart now"
  by (simp add: expired_def)

lemma timeout_message_carries: "str_in string (timeout_message string)"
proof -
  have "timeout_message string = (ascii ''Timed out waiting for '' @ [39]) @ string @ [39]"
    by (simp add: timeout_message_def)
  then show ?thesis unfolding str_in_iff by blast
qed

subsection \<open>Short reads\<close>

text \<open>
  C4: for every size, once a clock reading is past the deadline \<^verbatim>\<open>read\<close> returns
  the UTF-8 encoding of the chunks it has dequeued so far, a prefix of what was
  queued and what arrived, and no timeout error; a result of fewer than \<open>sz\<close>
  chunks means that the last reading was past the deadline. The encoding exists
  when the chunks hold scalar values only, and with an empty queue and no
  arrival it is the empty byte string.
\<close>

theorem read_short_on_deadline:
  assumes "\<exists>tk \<in> set loop. expired s tstart (snd tk)"
  shows "\<exists>data s' used rest.
     read sz s ((evs, tstart) # loop) = Some (utf8_encode (concat data), s', rest) \<and>
     (evs, tstart) # loop = used @ rest \<and>
     data @ fifo s' = fifo s @ arrived used \<and>
     (\<forall>m. utf8_encode (concat data) \<noteq> Inl (ConError m)) \<and>
     (list_all scalar (concat data) \<longrightarrow> (\<exists>b. utf8_encode (concat data) = Inr b)) \<and>
     (fifo s = [] \<and> arrived used = [] \<longrightarrow> utf8_encode (concat data) = Inr []) \<and>
     (int (length data) < sz \<longrightarrow> expired s tstart (snd (last used)))"
proof -
  let ?s = "arrive s evs"
  from assms have "\<exists>tk \<in> set loop. expired ?s tstart (snd tk)"
    by simp
  from read_loop_returns [OF this] obtain data s' rest where
    run: "read_loop sz tstart [] ?s loop = Some (data, s', rest)"
    by (metis prod_cases3)
  from read_loop_fifo [OF run] obtain used where
    u: "loop = used @ rest" "data @ fifo s' = fifo ?s @ arrived used"
    by auto
  have short: "expired s tstart (snd (last ((evs, tstart) # used)))"
    if "int (length data) < sz"
  proof -
    from read_loop_short [OF run] that obtain used' where
      u': "loop = used' @ rest" "used' \<noteq> []" "expired ?s tstart (snd (last used'))"
      by blast
    from u(1) u'(1) have "used' = used" by simp
    with u' show ?thesis by simp
  qed
  have empty: "utf8_encode (concat data) = Inr []"
    if "fifo s = [] \<and> arrived ((evs, tstart) # used) = []"
  proof -
    from that u(2) have "data = []" by simp
    then show ?thesis by simp
  qed
  have "read sz s ((evs, tstart) # loop) = Some (utf8_encode (concat data), s', rest) \<and>
     (evs, tstart) # loop = ((evs, tstart) # used) @ rest \<and>
     data @ fifo s' = fifo s @ arrived ((evs, tstart) # used) \<and>
     (\<forall>m. utf8_encode (concat data) \<noteq> Inl (ConError m)) \<and>
     (list_all scalar (concat data) \<longrightarrow> (\<exists>b. utf8_encode (concat data) = Inr b)) \<and>
     (fifo s = [] \<and> arrived ((evs, tstart) # used) = [] \<longrightarrow>
        utf8_encode (concat data) = Inr []) \<and>
     (int (length data) < sz \<longrightarrow> expired s tstart (snd (last ((evs, tstart) # used))))"
    using run u short empty utf8_encode_scalar [of "concat data"]
    by (simp add: utf8_encode_not_ConError)
  then show ?thesis by blast
qed

text \<open>No data ever pushed, a timeout of 0.2 s: \<^verbatim>\<open>read(10)\<close> returns \<^verbatim>\<open>b""\<close>.\<close>

theorem read_short_on_deadline_witness:
  "(\<exists>tk \<in> set (quiet [0.1, 0.25, 7]). expired (queued [] 0.2) 0 (snd tk)) \<and>
   read 10 (queued [] 0.2) (quiet [0, 0.1, 0.25, 7]) =
     Some (Inr [], (queued [] 0.2)\<lparr>calls := [Wait 0.1]\<rparr>, quiet [7]) \<and>
   (\<exists>data s' used rest.
      read 10 (queued [] 0.2) (([], 0) # quiet [0.1, 0.25, 7]) =
        Some (utf8_encode (concat data), s', rest) \<and>
      ([], 0) # quiet [0.1, 0.25, 7] = used @ rest \<and>
      data @ fifo s' = fifo (queued [] 0.2) @ arrived used)"
proof -
  have h: "\<exists>tk \<in> set (quiet [0.1, 0.25, 7]). expired (queued [] 0.2) 0 (snd tk)"
    by (simp add: quiet_def expired_def queued_def)
  have v: "read 10 (queued [] 0.2) (quiet [0, 0.1, 0.25, 7]) =
     Some (Inr [], (queued [] 0.2)\<lparr>calls := [Wait 0.1]\<rparr>, quiet [7])"
    by code_simp
  from read_short_on_deadline [OF h, of 10 "[]"] h v show ?thesis
    by blast
qed

subsection \<open>The unit of \<^verbatim>\<open>read\<close> is the chunk\<close>



subsection \<open>First in, first out\<close>

lemma read_fifo:
  assumes "read sz s ticks = Some (r, s', rest)"
  shows "\<exists>data used. ticks = used @ rest \<and> r = utf8_encode (concat data) \<and>
     data @ fifo s' = fifo s @ arrived used"
proof -
  from assms obtain evs tstart loop where ticks: "ticks = (evs, tstart) # loop"
    by (cases ticks) auto
  with assms obtain data where
    loop: "read_loop sz tstart [] (arrive s evs) loop = Some (data, s', rest)"
    and r: "r = utf8_encode (concat data)"
    by (auto split: option.splits)
  from read_loop_fifo [OF loop] obtain used where
    u: "loop = used @ rest" "data @ fifo s' = fifo (arrive s evs) @ arrived used"
    by auto
  with r ticks have "ticks = ((evs, tstart) # used) @ rest \<and>
      r = utf8_encode (concat data) \<and>
      data @ fifo s' = fifo s @ arrived ((evs, tstart) # used)"
    by simp
  then show ?thesis by blast
qed

lemma read_seq_fifo:
  "read_seq szs s ticks = Some (Inr outs, s', rest) \<Longrightarrow>
   \<exists>data used. ticks = used @ rest \<and> utf8_encode (concat data) = Inr (concat outs) \<and>
     data @ fifo s' = fifo s @ arrived used"
proof (induction szs arbitrary: s ticks outs)
  case Nil
  then have "ticks = [] @ rest \<and> utf8_encode (concat []) = Inr (concat outs) \<and>
     [] @ fifo s' = fifo s @ arrived []"
    by simp
  then show ?case by blast
next
  case (Cons sz szs)
  from Cons.prems obtain out s1 t1 outs1 where
    first: "read sz s ticks = Some (Inr out, s1, t1)"
    and others: "read_seq szs s1 t1 = Some (Inr outs1, s', rest)"
    and outs: "outs = out # outs1"
    by (auto split: option.splits sum.splits)
  from read_fifo [OF first] obtain d1 u1 where
    1: "ticks = u1 @ t1" "Inr out = utf8_encode (concat d1)" "d1 @ fifo s1 = fifo s @ arrived u1"
    by blast
  from Cons.IH [OF others] obtain d2 u2 where
    2: "t1 = u2 @ rest" "utf8_encode (concat d2) = Inr (concat outs1)"
       "d2 @ fifo s' = fifo s1 @ arrived u2"
    by blast
  have "(d1 @ d2) @ fifo s' = d1 @ fifo s1 @ arrived u2"
    using 2(3) by simp
  also have "\<dots> = (d1 @ fifo s1) @ arrived u2"
    by simp
  also have "\<dots> = fifo s @ arrived (u1 @ u2)"
    by (simp only: 1(3)) simp
  finally have q: "(d1 @ d2) @ fifo s' = fifo s @ arrived (u1 @ u2)" .
  from 1(2) 2(2) outs have "utf8_encode (concat (d1 @ d2)) = Inr (concat outs)"
    by (simp add: utf8_encode_append_Inr)
  with 1(1) 2(1) q have "ticks = (u1 @ u2) @ rest \<and>
     utf8_encode (concat (d1 @ d2)) = Inr (concat outs) \<and>
     (d1 @ d2) @ fifo s' = fifo s @ arrived (u1 @ u2)"
    by simp
  then show ?case by blast
qed

text \<open>
  C1: chunks pushed by \<^verbatim>\<open>on_message\<close> onto the empty queue, then any sequence of
  \<^verbatim>\<open>read\<close> calls that return and together empty the queue: the concatenation of
  the results is the UTF-8 encoding of the concatenation of the chunks, followed
  by those that arrived during the reads, in arrival order.
\<close>

theorem fifo_order:
  assumes "fifo s0 = []"
    and "read_seq szs (foldl on_message s0 chunks) ticks = Some (Inr outs, s', rest)"
    and "fifo s' = []"
  shows "\<exists>used. ticks = used @ rest \<and>
     utf8_encode (concat (chunks @ arrived used)) = Inr (concat outs) \<and>
     (arrived used = [] \<longrightarrow> utf8_encode (concat chunks) = Inr (concat outs))"
proof -
  from read_seq_fifo [OF assms(2)] obtain data used where
    u: "ticks = used @ rest" "utf8_encode (concat data) = Inr (concat outs)"
       "data @ fifo s' = fifo (foldl on_message s0 chunks) @ arrived used"
    by blast
  from u(3) assms(1,3) have "data = chunks @ arrived used"
    by (simp add: fifo_pushes)
  with u(1,2) have "ticks = used @ rest \<and>
     utf8_encode (concat (chunks @ arrived used)) = Inr (concat outs) \<and>
     (arrived used = [] \<longrightarrow> utf8_encode (concat chunks) = Inr (concat outs))"
    by auto
  then show ?thesis by blast
qed


text \<open>
  Three chunks, the first ending in a two-byte character, the second a
  three-byte character, read by \<^verbatim>\<open>read(1)\<close>, \<^verbatim>\<open>read(2)\<close>, \<^verbatim>\<open>read(1)\<close>.
\<close>

theorem fifo_order_witness:
  "fifo (init [] [] 1) = [] \<and>
   read_seq [1, 2, 1] (foldl on_message (init [] [] 1) [[0x61, 0xE9], [0x20AC], [0x62]])
     (quiet [0, 0.1, 0.2, 0.3, 0.4, 1.5, 1.6, 3, 5]) =
     Some (Inr [[0x61, 0xC3, 0xA9], [0xE2, 0x82, 0xAC, 0x62], []],
           (init [] [] 1)\<lparr>calls := [NotifyAll, NotifyAll, NotifyAll, Wait 0.9]\<rparr>, quiet [5])  \<and>
   utf8_encode (concat [[0x61, 0xE9], [0x20AC], [0x62]]) =
     Inr (concat [[0x61, 0xC3, 0xA9], [0xE2, 0x82, 0xAC, 0x62], []])"
proof -
  let ?s' = "(init [] [] 1)\<lparr>calls := [NotifyAll, NotifyAll, NotifyAll, Wait 0.9]\<rparr>"
  have h1: "fifo (init [] [] 1) = []" by (simp add: init_def)
  have h2: "read_seq [1, 2, 1] (foldl on_message (init [] [] 1) [[0x61, 0xE9], [0x20AC], [0x62]])
     (quiet [0, 0.1, 0.2, 0.3, 0.4, 1.5, 1.6, 3, 5]) =
     Some (Inr [[0x61, 0xC3, 0xA9], [0xE2, 0x82, 0xAC, 0x62], []], ?s', quiet [5])"
    by (simp add: quiet_def init_def on_message_def read_loop_Cons read_loop_enough
          expired_def utf8_cp_def)
  have h3: "fifo ?s' = []" by (simp add: init_def)
  from fifo_order [OF h1 h2 h3] obtain used where
    u: "quiet [0, 0.1, 0.2, 0.3, 0.4, 1.5, 1.6, 3, 5] = used @ quiet [5]"
    and e: "arrived used = [] \<longrightarrow> utf8_encode (concat [[0x61, 0xE9], [0x20AC], [0x62]]) =
     Inr (concat [[0x61, 0xC3, 0xA9], [0xE2, 0x82, 0xAC, 0x62], []])"
    by blast
  from u have "used = quiet [0, 0.1, 0.2, 0.3, 0.4, 1.5, 1.6, 3]"
    by (simp add: quiet_def)
  then have "arrived used = []" by (simp add: quiet_def)
  with e h1 h2 show ?thesis by blast
qed

subsection \<open>Closing, and the frames sent\<close>

text \<open>
  C9: \<^verbatim>\<open>close\<close> calls \<^verbatim>\<open>notify_all\<close> after the attempt to close the websocket
  whether or not that attempt raises, and an exception of the attempt reaches the
  caller of \<^verbatim>\<open>close\<close>.
\<close>

theorem close_always_notifies:
  "calls (snd (close outcome s)) = calls s @ [WsClose, NotifyAll] \<and>
   fst (close outcome s) = (case outcome of None \<Rightarrow> Inr () | Some e \<Rightarrow> Inl e) \<and>
   calls (snd (close (Some e) s)) = calls s @ [WsClose, NotifyAll] \<and>
   fst (close (Some e) s) = Inl e \<and>
   fifo (snd (close outcome s)) = fifo s"
  by (cases outcome) (simp_all add: close_def)

lemma sent_append [simp]: "sent (xs @ ys) = sent xs @ sent ys"
  by (induction xs rule: sent.induct) simp_all

lemma sent_deliver [simp]: "sent (calls (deliver s e)) = sent (calls s)"
  by (cases e) (simp_all add: on_message_def on_error_def on_close_def)

lemma sent_arrive [simp]: "sent (calls (arrive s evs)) = sent (calls s)"
  by (induction evs arbitrary: s) simp_all

lemma wait_loop_sent:
  "wait_loop string tstart data s ticks = Some (r, s', rest) \<Longrightarrow>
   sent (calls s') = sent (calls s)"
proof (induction ticks arbitrary: data s)
  case Nil
  then show ?case by (simp add: wait_loop.simps)
next
  case (Cons tick ticks)
  obtain evs now where tick: "tick = (evs, now)" by (cases tick)
  from Cons.prems [unfolded tick wait_loop_Cons] show ?case
    by (auto split: if_splits list.splits option.splits dest!: Cons.IH)
qed

lemma wait_for_string_facts:
  assumes "wait_for_string string s ticks = Some (r, s', rest)"
  shows "sent (calls s') = sent (calls s) \<and> timeout s' = timeout s \<and>
    password s' = password s \<and> ip s' = ip s \<and> (\<forall>v. r = Inr v \<longrightarrow> v = PyNone)"
proof -
  from assms obtain evs tstart loop where ticks: "ticks = (evs, tstart) # loop"
    by (cases ticks) auto
  with assms have run: "wait_loop string tstart [] (arrive s evs) loop = Some (r, s', rest)"
    by simp
  from wait_loop_outcome [OF run] have "timeout s' = timeout s \<and>
    password s' = password s \<and> ip s' = ip s \<and> (\<forall>v. r = Inr v \<longrightarrow> v = PyNone)"
    by (cases r) auto
  with wait_loop_sent [OF run] show ?thesis by simp
qed

subsection \<open>The handshake\<close>

text \<open>
  C5: a handshake that succeeds has set the timeout to 5 s, waited for
  \<^verbatim>\<open>"Password: "\<close> under that timeout, sent the password followed by a carriage
  return as its only frame, waited for \<^verbatim>\<open>"WebREPL connected"\<close> under the same
  timeout, and set the timeout to 1 s; so does a construction that succeeds.
\<close>

theorem handshake_sequence:
  assumes "authenticate send_outcome s ticks = Some (Inr u, s', rest)"
  shows "send_outcome = None \<and>
     (\<exists>s1 t1 s2.
        wait_for_string (ascii ''Password: '') (s\<lparr>timeout := 5\<rparr>) ticks =
          Some (Inr PyNone, s1, t1) \<and>
        timeout s1 = 5 \<and>
        wait_for_string (ascii ''WebREPL connected'')
          (s1\<lparr>calls := calls s1 @ [WsSend (password s @ [13])]\<rparr>) t1 =
          Some (Inr PyNone, s2, rest) \<and>
        timeout s2 = 5 \<and>
        s' = s2\<lparr>timeout := 1\<rparr>) \<and>
     sent (calls s') = sent (calls s) @ [password s @ [13]] \<and>
     timeout s' = 1 \<and>
     (ConWebsock i p t send_outcome ticks = Some (Inr u, c, rest) \<longrightarrow>
        timeout c = 1 \<and> sent (calls c) = [p @ [13]])"
proof -
  let ?begun = "s\<lparr>timeout := 5\<rparr>"
  from assms obtain v1 s1 t1 where
    w1: "wait_for_string (ascii ''Password: '') ?begun ticks = Some (Inr v1, s1, t1)"
    by (auto simp: authenticate_def Let_def split: option.splits sum.splits prod.splits)
  from wait_for_string_facts [OF w1] have
    f1: "sent (calls s1) = sent (calls s)" "timeout s1 = 5" "password s1 = password s"
      "v1 = PyNone"
    by simp_all
  let ?told = "s1\<lparr>calls := calls s1 @ [WsSend (password s @ [13])]\<rparr>"
  from assms w1 f1 have out: "send_outcome = None"
    by (auto simp: authenticate_def ws_send_def ascii_def Let_def
          split: option.splits sum.splits prod.splits)
  with assms w1 f1 obtain v2 s2 where
    w2: "wait_for_string (ascii ''WebREPL connected'') ?told t1 = Some (Inr v2, s2, rest)"
    and s': "s' = s2\<lparr>timeout := 1\<rparr>"
    by (auto simp: authenticate_def ws_send_def ascii_def Let_def
          split: option.splits sum.splits prod.splits)
  from wait_for_string_facts [OF w2] f1 have
    f2: "sent (calls s2) = sent (calls s) @ [password s @ [13]]" "timeout s2 = 5" "v2 = PyNone"
    by simp_all
  have main: "send_outcome = None \<and>
     (\<exists>s1 t1 s2.
        wait_for_string (ascii ''Password: '') (s\<lparr>timeout := 5\<rparr>) ticks =
          Some (Inr PyNone, s1, t1) \<and>
        timeout s1 = 5 \<and>
        wait_for_string (ascii ''WebREPL connected'')
          (s1\<lparr>calls := calls s1 @ [WsSend (password s @ [13])]\<rparr>) t1 =
          Some (Inr PyNone, s2, rest) \<and>
        timeout s2 = 5 \<and>
        s' = s2\<lparr>timeout := 1\<rparr>) \<and>
     sent (calls s') = sent (calls s) @ [password s @ [13]] \<and>
     timeout s' = 1"
    using out w1 w2 f1 f2 s' by auto
  have con: "timeout c = 1 \<and> sent (calls c) = [p @ [13]]"
    if c: "ConWebsock i p t send_outcome ticks = Some (Inr u, c, rest)"
  proof -
    let ?fresh = "init i p t"
    let ?start = "?fresh\<lparr>timeout := 5\<rparr>"
    from c have a: "authenticate send_outcome ?fresh ticks = Some (Inr u, c, rest)"
      by (simp add: ConWebsock_def)
    then obtain x1 c1 r1 where
      y1: "wait_for_string (ascii ''Password: '') ?start ticks = Some (Inr x1, c1, r1)"
      by (auto simp: authenticate_def Let_def split: option.splits sum.splits prod.splits)
    from wait_for_string_facts [OF y1] have
      g1: "sent (calls c1) = []" "password c1 = p"
      by (simp_all add: init_def)
    let ?ctold = "c1\<lparr>calls := calls c1 @ [WsSend (p @ [13])]\<rparr>"
    from a y1 g1 obtain x2 c2 where
      y2: "wait_for_string (ascii ''WebREPL connected'') ?ctold r1 = Some (Inr x2, c2, rest)"
      and c': "c = c2\<lparr>timeout := 1\<rparr>"
      by (auto simp: authenticate_def ws_send_def ascii_def Let_def
            split: option.splits sum.splits prod.splits)
    from wait_for_string_facts [OF y2] g1 c' show ?thesis
      by simp
  qed
  from main con show ?thesis by blast
qed

text \<open>
  The simulated transport of the end-to-end test: the server sends the prompt,
  then, the password sent, the greeting. The empty remainder that the first wait
  pushed back is dequeued before the greeting.
\<close>

theorem handshake_sequence_witness:
  "authenticate None (init (ascii ''192.168.4.1'') (ascii ''secret'') 0)
     [([], 0), ([Message (ascii ''Password: '')], 0.1),
      ([], 0.2), ([Message (ascii ''WebREPL connected'')], 0.3), ([], 0.4)] =
     Some (Inr (),
       \<lparr>fifo = [[]], timeout = 1, ip = ascii ''192.168.4.1'', password = ascii ''secret'',
        calls = [NotifyAll, WsSend (ascii ''secret'' @ [13]), NotifyAll]\<rparr>, []) \<and>
   sent [NotifyAll, WsSend (ascii ''secret'' @ [13]), NotifyAll] =
     sent [] @ [ascii ''secret'' @ [13]] \<and>
   (\<exists>s1 t1 s2.
        wait_for_string (ascii ''Password: '')
          ((init (ascii ''192.168.4.1'') (ascii ''secret'') 0)\<lparr>timeout := 5\<rparr>)
          [([], 0), ([Message (ascii ''Password: '')], 0.1),
           ([], 0.2), ([Message (ascii ''WebREPL connected'')], 0.3), ([], 0.4)] =
          Some (Inr PyNone, s1, t1) \<and>
        timeout s1 = 5 \<and>
        wait_for_string (ascii ''WebREPL connected'')
          (s1\<lparr>calls := calls s1 @ [WsSend (ascii ''secret'' @ [13])]\<rparr>) t1 =
          Some (Inr PyNone, s2, []) \<and>
        timeout s2 = 5)"
proof -
  let ?c = "init (ascii ''192.168.4.1'') (ascii ''secret'') 0"
  let ?sched = "[([], 0), ([Message (ascii ''Password: '')], 0.1),
      ([], 0.2), ([Message (ascii ''WebREPL connected'')], 0.3), ([], 0.4)]"
  let ?c' = "\<lparr>fifo = [[]], timeout = 1, ip = ascii ''192.168.4.1'', password = ascii ''secret'',
        calls = [NotifyAll, WsSend (ascii ''secret'' @ [13]), NotifyAll]\<rparr>"
  have h: "authenticate None ?c ?sched = Some (Inr (), ?c', [])"
    by code_simp
  have p: "password ?c = ascii ''secret''" "calls ?c = []"
    by (simp_all add: init_def)
  from handshake_sequence [OF h] h show ?thesis
    by (simp add: p) blast
qed

subsection \<open>What a successful marker wait returns and leaves\<close>

lemma wait_for_string_success:
  assumes "wait_for_string string s ticks = Some (Inr v, s', rest)"
  shows "v = PyNone \<and> string \<noteq> [] \<and>
    (\<exists>used popped q i. ticks = used @ rest \<and> popped \<noteq> [] \<and>
       fifo s @ arrived used = popped @ q \<and>
       (\<forall>k. 0 < k \<and> k < length popped \<longrightarrow> \<not> str_in string (concat (take k popped))) \<and>
       str_find string (concat popped) = Some i \<and>
       fifo s' = drop (i + length string) (concat popped) # q)"
proof -
  from assms obtain evs tstart loop where ticks: "ticks = (evs, tstart) # loop"
    by (cases ticks) auto
  with assms have run: "wait_loop string tstart [] (arrive s evs) loop = Some (Inr v, s', rest)"
    by simp
  from wait_loop_outcome [OF run] obtain used popped q i where
    v: "v = PyNone" "string \<noteq> []"
    and u: "loop = used @ rest" "popped \<noteq> []"
      "fifo (arrive s evs) @ arrived used = popped @ q"
      "\<forall>k. 0 < k \<and> k < length popped \<longrightarrow> \<not> str_in string ([] @ concat (take k popped))"
      "str_find string ([] @ concat popped) = Some i"
      "fifo s' = drop (i + length string) ([] @ concat popped) # q"
    by auto
  from u ticks have "ticks = ((evs, tstart) # used) @ rest \<and> popped \<noteq> [] \<and>
       fifo s @ arrived ((evs, tstart) # used) = popped @ q \<and>
       (\<forall>k. 0 < k \<and> k < length popped \<longrightarrow> \<not> str_in string (concat (take k popped))) \<and>
       str_find string (concat popped) = Some i \<and>
       fifo s' = drop (i + length string) (concat popped) # q"
    by simp
  with v show ?thesis by blast
qed

text \<open>
  C6, as amended: a successful \<^verbatim>\<open>wait_for_string\<close> returns \<^verbatim>\<open>None\<close>. The text
  after the first occurrence of the marker in the dequeued data is not returned:
  it becomes the first chunk of the queue.
\<close>

theorem marker_wait_returns_none:
  assumes "wait_for_string string s ticks = Some (Inr v, s', rest)"
  shows "v = PyNone \<and>
    (\<exists>popped i. str_find string (concat popped) = Some i \<and>
       hd (fifo s') = drop (i + length string) (concat popped) \<and>
       concat popped = take i (concat popped) @ string @ hd (fifo s') \<and>
       popped @ tl (fifo s') = fifo s @ arrived (take (length ticks - length rest) ticks))"
proof -
  from wait_for_string_success [OF assms] obtain used popped q i where
    v: "v = PyNone"
    and u: "ticks = used @ rest" "fifo s @ arrived used = popped @ q"
      "str_find string (concat popped) = Some i"
      "fifo s' = drop (i + length string) (concat popped) # q"
    by blast
  from str_find_first [OF u(3)] u(4)
  have "concat popped = take i (concat popped) @ string @ hd (fifo s')"
    by simp
  moreover from u(1) have "take (length ticks - length rest) ticks = used"
    by simp
  ultimately have "str_find string (concat popped) = Some i \<and>
       hd (fifo s') = drop (i + length string) (concat popped) \<and>
       concat popped = take i (concat popped) @ string @ hd (fifo s') \<and>
       popped @ tl (fifo s') = fifo s @ arrived (take (length ticks - length rest) ticks)"
    using u by simp
  with v show ?thesis by blast
qed

text \<open>
  The claim as stated fails on the queue \<^verbatim>\<open>["ab", "c:marker:de"]\<close>: the call
  returns \<^verbatim>\<open>None\<close>, not the remainder \<^verbatim>\<open>":de"\<close>, which is queued.
\<close>

theorem marker_wait_returns_remainder_counterexample:
  "wait_for_string (ascii ''marker'') (queued [ascii ''ab'', ascii ''c:marker:de''] 1)
     (quiet [0, 0.1, 0.2]) =
     Some (Inr PyNone, queued [ascii '':de''] 1, []) \<and>
   PyNone \<noteq> PyStr (ascii '':de'')"
  by code_simp

theorem marker_wait_returns_none_witness:
  "wait_for_string (ascii ''marker'') (queued [ascii ''ab'', ascii ''c:marker:de''] 1)
     (quiet [0, 0.1, 0.2]) =
     Some (Inr PyNone, queued [ascii '':de''] 1, []) \<and>
   (\<exists>popped i. str_find (ascii ''marker'') (concat popped) = Some i \<and>
       hd (fifo (queued [ascii '':de''] 1)) = drop (i + length (ascii ''marker'')) (concat popped) \<and>
       concat popped = take i (concat popped) @ ascii ''marker'' @ hd (fifo (queued [ascii '':de''] 1)))"
proof -
  have h: "wait_for_string (ascii ''marker'') (queued [ascii ''ab'', ascii ''c:marker:de''] 1)
     (quiet [0, 0.1, 0.2]) = Some (Inr PyNone, queued [ascii '':de''] 1, [])"
    by code_simp
  from marker_wait_returns_none [OF h] h show ?thesis
    by blast
qed

text \<open>
  C10: every successful \<^verbatim>\<open>wait_for_string\<close> pushes one chunk, the text after the
  marker, onto the front of what it left in the queue, also when that text is
  empty; if it dequeued all there was, \<^verbatim>\<open>inWaiting\<close> returns 1 afterwards.
\<close>

theorem marker_wait_pushes_one_chunk:
  assumes "wait_for_string string s ticks = Some (Inr v, s', rest)"
  shows "\<exists>used popped q before after.
     ticks = used @ rest \<and> popped \<noteq> [] \<and>
     fifo s @ arrived used = popped @ q \<and>
     concat popped = before @ string @ after \<and>
     fifo s' = after # q \<and>
     inWaiting s' = int (length q) + 1 \<and>
     (q = [] \<longrightarrow> inWaiting s' = 1) \<and>
     (after = [] \<and> q = [] \<longrightarrow> fifo s' = [[]] \<and> inWaiting s' = 1)"
proof -
  from wait_for_string_success [OF assms] obtain used popped q i where
    u: "ticks = used @ rest" "popped \<noteq> []" "fifo s @ arrived used = popped @ q"
      "str_find string (concat popped) = Some i"
      "fifo s' = drop (i + length string) (concat popped) # q"
    by blast
  let ?before = "take i (concat popped)"
  let ?after = "drop (i + length string) (concat popped)"
  from str_find_first [OF u(4)] have "concat popped = ?before @ string @ ?after"
    by simp
  with u have "ticks = used @ rest \<and> popped \<noteq> [] \<and>
     fifo s @ arrived used = popped @ q \<and>
     concat popped = ?before @ string @ ?after \<and>
     fifo s' = ?after # q \<and>
     inWaiting s' = int (length q) + 1 \<and>
     (q = [] \<longrightarrow> inWaiting s' = 1) \<and>
     (?after = [] \<and> q = [] \<longrightarrow> fifo s' = [[]] \<and> inWaiting s' = 1)"
    by (simp add: inWaiting_def)
  then show ?thesis by blast
qed

text \<open>The marker ends the only chunk: the queue then holds one empty chunk.\<close>

theorem marker_wait_pushes_one_chunk_witness:
  "wait_for_string (ascii ''marker'') (queued [ascii ''a:marker''] 1) (quiet [0, 0.1]) =
     Some (Inr PyNone, queued [[]] 1, []) \<and>
   inWaiting (queued [[]] 1) = 1 \<and>
   read 1 (queued [[]] 1) (quiet [2, 2.1]) = Some (Inr [], queued [] 1, []) \<and>
   (\<exists>used popped q before after.
     quiet [0, 0.1] = used @ [] \<and> popped \<noteq> [] \<and>
     fifo (queued [ascii ''a:marker''] 1) @ arrived used = popped @ q \<and>
     concat popped = before @ ascii ''marker'' @ after \<and>
     fifo (queued [[]] 1) = after # q \<and>
     inWaiting (queued [[]] 1) = int (length q) + 1)"
proof -
  have h: "wait_for_string (ascii ''marker'') (queued [ascii ''a:marker''] 1) (quiet [0, 0.1]) =
     Some (Inr PyNone, queued [[]] 1, [])"
    by code_simp
  have i: "inWaiting (queued [[]] 1) = 1"
    by (simp add: inWaiting_def queued_def)
  have r: "read 1 (queued [[]] 1) (quiet [2, 2.1]) = Some (Inr [], queued [] 1, [])"
    by code_simp
  from marker_wait_pushes_one_chunk [OF h] h i r show ?thesis
    by blast
qed

subsection \<open>Splitting at the marker\<close>

lemma wait_loop_finds:
  assumes "string \<noteq> []"
  shows "fifo s = q @ extra \<Longrightarrow> \<not> str_in string data \<Longrightarrow>
    str_in string (data @ concat q) \<Longrightarrow> length q \<le> length loop \<Longrightarrow>
    \<forall>tk \<in> set (take (length q) loop). \<not> expired s tstart (snd tk) \<Longrightarrow>
    \<exists>k i s'. 0 < k \<and> k \<le> length q \<and>
      wait_loop string tstart data s loop = Some (Inr PyNone, s', drop k loop) \<and>
      (\<forall>j<k. \<not> str_in string (data @ concat (take j q))) \<and>
      str_find string (data @ concat (take k q)) = Some i \<and>
      fifo s' = drop (i + length string) (data @ concat (take k q)) #
                drop k q @ extra @ arrived (take k loop)"
proof (induction q arbitrary: data s loop extra)
  case Nil
  then show ?case by simp
next
  case (Cons c cs)
  from Cons.prems(4) obtain tick loop' where loop: "loop = tick # loop'"
    by (cases loop) auto
  obtain evs now where tick: "tick = (evs, now)" by (cases tick)
  from Cons.prems(5) have fresh: "\<not> expired s tstart now"
    by (simp add: loop tick)
  from Cons.prems(1) have queue: "fifo s @ msgs evs = c # cs @ extra @ msgs evs"
    by simp
  let ?s = "(arrive s evs)\<lparr>fifo := cs @ extra @ msgs evs\<rparr>"
  show ?case
  proof (cases "str_find string (data @ c)")
    case (Some i)
    let ?s' = "(arrive s evs)\<lparr>fifo :=
      drop (i + length string) (data @ c) # cs @ extra @ msgs evs\<rparr>"
    from Some fresh queue assms
    have "wait_loop string tstart data s loop = Some (Inr PyNone, ?s', loop')"
      by (simp add: loop tick wait_loop_Cons)
    with Some Cons.prems(2) have "0 < Suc 0 \<and> Suc 0 \<le> length (c # cs) \<and>
      wait_loop string tstart data s loop = Some (Inr PyNone, ?s', drop (Suc 0) loop) \<and>
      (\<forall>j<Suc 0. \<not> str_in string (data @ concat (take j (c # cs)))) \<and>
      str_find string (data @ concat (take (Suc 0) (c # cs))) = Some i \<and>
      fifo ?s' = drop (i + length string) (data @ concat (take (Suc 0) (c # cs))) #
                drop (Suc 0) (c # cs) @ extra @ arrived (take (Suc 0) loop)"
      by (simp add: loop tick)
    then show ?thesis by blast
  next
    case None
    with fresh queue have step: "wait_loop string tstart data s loop =
        wait_loop string tstart (data @ c) ?s loop'"
      by (simp add: loop tick wait_loop_Cons)
    have 1: "fifo ?s = cs @ (extra @ msgs evs)" by simp
    from None have 2: "\<not> str_in string (data @ c)" by (simp add: str_in_def)
    from Cons.prems(3) have 3: "str_in string ((data @ c) @ concat cs)" by simp
    from Cons.prems(4) have 4: "length cs \<le> length loop'" by (simp add: loop)
    from Cons.prems(5) have 5: "\<forall>tk \<in> set (take (length cs) loop'). \<not> expired ?s tstart (snd tk)"
      by (simp add: loop expired_def)
    from Cons.IH [OF 1 2 3 4 5] obtain k i s' where
      ih: "0 < k" "k \<le> length cs"
        "wait_loop string tstart (data @ c) ?s loop' = Some (Inr PyNone, s', drop k loop')"
        "\<forall>j<k. \<not> str_in string ((data @ c) @ concat (take j cs))"
        "str_find string ((data @ c) @ concat (take k cs)) = Some i"
        "fifo s' = drop (i + length string) ((data @ c) @ concat (take k cs)) #
                drop k cs @ (extra @ msgs evs) @ arrived (take k loop')"
      by blast
    have before: "\<not> str_in string (data @ concat (take j (c # cs)))" if "j < Suc k" for j
    proof (cases j)
      case 0
      with Cons.prems(2) show ?thesis by simp
    next
      case (Suc j')
      with that ih(4) show ?thesis by simp
    qed
    from ih step before have "0 < Suc k \<and> Suc k \<le> length (c # cs) \<and>
      wait_loop string tstart data s loop = Some (Inr PyNone, s', drop (Suc k) loop) \<and>
      (\<forall>j<Suc k. \<not> str_in string (data @ concat (take j (c # cs)))) \<and>
      str_find string (data @ concat (take (Suc k) (c # cs))) = Some i \<and>
      fifo s' = drop (i + length string) (data @ concat (take (Suc k) (c # cs))) #
                drop (Suc k) (c # cs) @ extra @ arrived (take (Suc k) loop)"
      by (simp add: loop tick del: drop_append)
    then show ?thesis by blast
  qed
qed

lemma str_find_bound: "str_find sep data = Some i \<Longrightarrow> i + length sep \<le> length data"
proof (induction data arbitrary: i)
  case Nil
  then show ?case by (simp split: if_splits)
next
  case (Cons c cs)
  show ?case
  proof (cases "prefix sep (c # cs)")
    case True
    with Cons.prems have "i = 0" by simp
    with prefix_length_le [OF True] show ?thesis by simp
  next
    case False
    with Cons.prems obtain i' where "str_find sep cs = Some i'" "i = Suc i'"
      by auto
    with Cons.IH [of i'] show ?thesis by simp
  qed
qed

lemma not_str_in_Nil: "string \<noteq> [] \<Longrightarrow> \<not> str_in string []"
  by (simp add: str_in_def)

lemma first_appearance:
  assumes "string \<noteq> []" and "str_in string (concat q)"
  shows "\<exists>k. 0 < k \<and> k \<le> length q \<and> str_in string (concat (take k q)) \<and>
    (\<forall>j<k. \<not> str_in string (concat (take j q)))"
proof -
  let ?P = "\<lambda>k. str_in string (concat (take k q))"
  from assms(1) have "\<not> ?P 0" by (simp add: not_str_in_Nil)
  moreover from assms(2) have "?P (length q)" by simp
  ultimately obtain k where k: "k \<le> length q" "\<forall>j<k. \<not> ?P j" "?P k"
    using ex_least_nat_le [of ?P "length q"] by blast
  from k(3) \<open>\<not> ?P 0\<close> have "0 < k" by (cases k) auto
  with k show ?thesis by blast
qed

text \<open>
  C2, as amended: if a non-empty marker occurs in the concatenation of the queued
  chunks, it first appears in the concatenation of some \<open>k\<close> of them; and if none
  of the \<open>k\<close> clock readings taken while these are dequeued is past the deadline,
  \<^verbatim>\<open>wait_for_string\<close> dequeues exactly these \<open>k\<close> chunks, splits their
  concatenation at the first occurrence of the marker, puts the text after it in
  front of the rest of the queue, and returns \<^verbatim>\<open>None\<close>. On the queue
  \<^verbatim>\<open>["ab", "c:marker:de"]\<close> the text after \<^verbatim>\<open>"marker"\<close> is \<^verbatim>\<open>":de"\<close>, which a
  following \<^verbatim>\<open>read(2)\<close> returns when its deadline has passed.
\<close>

theorem marker_split:
  "(string \<noteq> [] \<and> str_in string (concat (fifo s)) \<longrightarrow>
      (\<exists>k. 0 < k \<and> k \<le> length (fifo s) \<and> str_in string (concat (take k (fifo s))) \<and>
         (\<forall>j<k. \<not> str_in string (concat (take j (fifo s)))))) \<and>
   (string \<noteq> [] \<and> k \<le> length (fifo s) \<and> str_in string (concat (take k (fifo s))) \<and>
    (\<forall>j<k. \<not> str_in string (concat (take j (fifo s)))) \<and> k \<le> length loop \<and>
    (\<forall>tk \<in> set (take k loop). \<not> expired s tstart (snd tk)) \<longrightarrow>
      (\<exists>i s' before after.
         wait_for_string string s ((evs, tstart) # loop) = Some (Inr PyNone, s', drop k loop) \<and>
         concat (take k (fifo s)) = before @ string @ after \<and> length before = i \<and>
         (\<forall>j<i. \<not> prefix string (drop j (concat (take k (fifo s))))) \<and>
         fifo s' = after # drop k (fifo s) @ arrived ((evs, tstart) # take k loop))) \<and>
   wait_for_string (ascii ''marker'') (queued [ascii ''ab'', ascii ''c:marker:de''] 1)
     (quiet [0, 0.1, 0.2]) = Some (Inr PyNone, queued [ascii '':de''] 1, []) \<and>
   read 2 (queued [ascii '':de''] 1) (quiet [0.3, 0.4, 1.5]) =
     Some (Inr [58, 100, 101], queued [] 1, []) \<and>
   utf8_encode (ascii '':de'') = Inr [58, 100, 101]"
proof -
  have appears: "\<exists>k. 0 < k \<and> k \<le> length (fifo s) \<and> str_in string (concat (take k (fifo s))) \<and>
         (\<forall>j<k. \<not> str_in string (concat (take j (fifo s))))"
    if "string \<noteq> [] \<and> str_in string (concat (fifo s))"
    using that first_appearance [of string "fifo s"] by blast
  have general: "\<exists>i s' before after.
         wait_for_string string s ((evs, tstart) # loop) = Some (Inr PyNone, s', drop k loop) \<and>
         concat (take k (fifo s)) = before @ string @ after \<and> length before = i \<and>
         (\<forall>j<i. \<not> prefix string (drop j (concat (take k (fifo s))))) \<and>
         fifo s' = after # drop k (fifo s) @ arrived ((evs, tstart) # take k loop)"
    if a: "string \<noteq> [] \<and> k \<le> length (fifo s) \<and> str_in string (concat (take k (fifo s))) \<and>
      (\<forall>j<k. \<not> str_in string (concat (take j (fifo s)))) \<and> k \<le> length loop \<and>
      (\<forall>tk \<in> set (take k loop). \<not> expired s tstart (snd tk))"
  proof -
    let ?s = "arrive s evs"
    let ?q = "take k (fifo s)"
    let ?d = "concat ?q"
    from a have k: "length ?q = k" by simp
    from a have 0: "string \<noteq> []" by blast
    have 1: "fifo ?s = ?q @ (drop k (fifo s) @ msgs evs)" by simp
    from 0 have 2: "\<not> str_in string []" by (rule not_str_in_Nil)
    from a have 3: "str_in string ([] @ ?d)" by simp
    from a have 4: "length ?q \<le> length loop" by simp
    from a have 5: "\<forall>tk \<in> set (take (length ?q) loop). \<not> expired ?s tstart (snd tk)"
      by (simp only: k expired_arrive) blast
    from wait_loop_finds [OF 0 1 2 3 4 5] obtain k' i s' where
      f: "0 < k'" "k' \<le> length ?q"
        "wait_loop string tstart [] ?s loop = Some (Inr PyNone, s', drop k' loop)"
        "str_find string ([] @ concat (take k' ?q)) = Some i"
        "fifo s' = drop (i + length string) ([] @ concat (take k' ?q)) #
                drop k' ?q @ (drop k (fifo s) @ msgs evs) @ arrived (take k' loop)"
      by blast
    from f(2) k have le: "k' \<le> k" by simp
    then have tk: "take k' ?q = take k' (fifo s)" by (simp add: min_def)
    from f(4) tk have "str_in string (concat (take k' (fifo s)))"
      by (simp add: str_in_def)
    with a le have "k' = k"
      by (metis le_neq_implies_less)
    with f k have run: "wait_for_string string s ((evs, tstart) # loop) =
        Some (Inr PyNone, s', drop k loop)"
      and found: "str_find string ?d = Some i"
      and queue: "fifo s' = drop (i + length string) ?d # drop k (fifo s) @
        arrived ((evs, tstart) # take k loop)"
      by simp_all
    from str_find_first [OF found] have
      split: "?d = take i ?d @ string @ drop (i + length string) ?d"
      and first: "\<forall>j<i. \<not> prefix string (drop j ?d)"
      by blast+
    from str_find_bound [OF found] have len: "length (take i ?d) = i" by simp
    from run split len first queue show ?thesis by blast
  qed
  have ex1: "wait_for_string (ascii ''marker'') (queued [ascii ''ab'', ascii ''c:marker:de''] 1)
     (quiet [0, 0.1, 0.2]) = Some (Inr PyNone, queued [ascii '':de''] 1, [])"
    by code_simp
  have ex2: "read 2 (queued [ascii '':de''] 1) (quiet [0.3, 0.4, 1.5]) =
     Some (Inr [58, 100, 101], queued [] 1, [])"
    by code_simp
  have ex3: "utf8_encode (ascii '':de'') = Inr [58, 100, 101]"
    by (simp add: ascii_def utf8_cp_def)
  from appears general ex1 ex2 ex3 show ?thesis by blast
qed

text \<open>
  The claim as stated fails in three ways: on its own example, where the next
  \<^verbatim>\<open>read(2)\<close> returns \<^verbatim>\<open>b":de"\<close> and not \<^verbatim>\<open>b"de"\<close>; when a clock reading is past
  the deadline before the marker is reached; and for the empty marker, which
  occurs in every queue and makes \<^verbatim>\<open>split\<close> raise \<^verbatim>\<open>ValueError\<close>.
\<close>

theorem marker_split_counterexample:
  "wait_for_string (ascii ''marker'') (queued [ascii ''ab'', ascii ''c:marker:de''] 1)
     (quiet [0, 0.1, 0.2]) = Some (Inr PyNone, queued [ascii '':de''] 1, []) \<and>
   read 2 (queued [ascii '':de''] 1) (quiet [0.3, 0.4, 1.5]) =
     Some (Inr [58, 100, 101], queued [] 1, []) \<and>
   utf8_encode (ascii ''de'') = Inr [100, 101] \<and>
   [58, 100, 101] \<noteq> [100, 101 :: byte] \<and>
   str_in (ascii ''marker'') (concat [ascii ''ab'', ascii ''c:marker:de'']) \<and>
   wait_for_string (ascii ''marker'') (queued [ascii ''ab'', ascii ''c:marker:de''] 1)
     (quiet [0, 0.1, 1.5]) =
     Some (Inl (ConError (timeout_message (ascii ''marker''))),
           queued [ascii ''c:marker:de''] 1, []) \<and>
   str_in [] (concat [ascii ''ab'']) \<and>
   wait_for_string [] (queued [ascii ''ab''] 1) (quiet [0, 0.1]) =
     Some (Inl ValueError, queued [] 1, [])"
proof -
  have 1: "wait_for_string (ascii ''marker'') (queued [ascii ''ab'', ascii ''c:marker:de''] 1)
     (quiet [0, 0.1, 0.2]) = Some (Inr PyNone, queued [ascii '':de''] 1, [])"
    by code_simp
  have 2: "read 2 (queued [ascii '':de''] 1) (quiet [0.3, 0.4, 1.5]) =
     Some (Inr [58, 100, 101], queued [] 1, [])"
    by code_simp
  have 3: "utf8_encode (ascii ''de'') = Inr [100, 101]"
    by (simp add: ascii_def utf8_cp_def)
  have 4: "[58, 100, 101] \<noteq> [100, 101 :: byte]"
    by simp
  have 5: "str_in (ascii ''marker'') (concat [ascii ''ab'', ascii ''c:marker:de''])"
    by code_simp
  have 6: "wait_for_string (ascii ''marker'') (queued [ascii ''ab'', ascii ''c:marker:de''] 1)
     (quiet [0, 0.1, 1.5]) =
     Some (Inl (ConError (timeout_message (ascii ''marker''))),
           queued [ascii ''c:marker:de''] 1, [])"
    by code_simp
  have 7: "str_in [] (concat [ascii ''ab''])"
    by code_simp
  have 8: "wait_for_string [] (queued [ascii ''ab''] 1) (quiet [0, 0.1]) =
     Some (Inl ValueError, queued [] 1, [])"
    by code_simp
  from 1 2 3 4 5 6 7 8 show ?thesis by (intro conjI)
qed

text \<open>The example of the claim: two chunks are dequeued and \<^verbatim>\<open>":de"\<close> is put back.\<close>

theorem marker_split_witness:
  "ascii ''marker'' \<noteq> [] \<and>
   str_in (ascii ''marker'') (concat (fifo (queued [ascii ''ab'', ascii ''c:marker:de''] 1))) \<and>
   str_in (ascii ''marker'')
     (concat (take 2 (fifo (queued [ascii ''ab'', ascii ''c:marker:de''] 1)))) \<and>
   \<not> str_in (ascii ''marker'')
     (concat (take 1 (fifo (queued [ascii ''ab'', ascii ''c:marker:de''] 1)))) \<and>
   \<not> expired (queued [ascii ''ab'', ascii ''c:marker:de''] 1) 0 0.1 \<and>
   \<not> expired (queued [ascii ''ab'', ascii ''c:marker:de''] 1) 0 0.2 \<and>
   (\<exists>k. 0 < k \<and> k \<le> length (fifo (queued [ascii ''ab'', ascii ''c:marker:de''] 1)) \<and>
      str_in (ascii ''marker'')
        (concat (take k (fifo (queued [ascii ''ab'', ascii ''c:marker:de''] 1))))) \<and>
   (\<exists>i s' before after.
       wait_for_string (ascii ''marker'') (queued [ascii ''ab'', ascii ''c:marker:de''] 1)
         (([], 0) # quiet [0.1, 0.2]) = Some (Inr PyNone, s', drop 2 (quiet [0.1, 0.2])) \<and>
       concat (take 2 (fifo (queued [ascii ''ab'', ascii ''c:marker:de''] 1))) =
         before @ ascii ''marker'' @ after \<and> length before = i \<and>
       fifo s' = after # drop 2 (fifo (queued [ascii ''ab'', ascii ''c:marker:de''] 1)) @
         arrived (([], 0) # take 2 (quiet [0.1, 0.2])))"
proof -
  let ?s = "queued [ascii ''ab'', ascii ''c:marker:de''] 1"
  let ?m = "ascii ''marker''"
  have h1: "?m \<noteq> []" by (simp add: ascii_def)
  have h2: "str_in ?m (concat (fifo ?s))" by code_simp
  have h3: "str_in ?m (concat (take 2 (fifo ?s)))" by code_simp
  have h4: "\<not> str_in ?m (concat (take 1 (fifo ?s)))" by code_simp
  have h5: "\<not> str_in ?m (concat (take 0 (fifo ?s)))" by code_simp
  have h6: "\<forall>j<2. \<not> str_in ?m (concat (take j (fifo ?s)))"
  proof (intro allI impI)
    fix j :: nat assume "j < 2"
    then have "j = 0 \<or> j = 1" by auto
    with h4 h5 show "\<not> str_in ?m (concat (take j (fifo ?s)))" by auto
  qed
  have h7: "2 \<le> length (fifo ?s)" "2 \<le> length (quiet [0.1, 0.2])"
    by (simp_all add: queued_def quiet_def)
  have h8: "\<not> expired ?s 0 0.1" "\<not> expired ?s 0 0.2"
    by (simp_all add: queued_def expired_def)
  then have h9: "\<forall>tk \<in> set (take 2 (quiet [0.1, 0.2])). \<not> expired ?s 0 (snd tk)"
    by (simp add: quiet_def)
  note inst = marker_split [where string = ?m and s = ?s and k = 2 and loop = "quiet [0.1, 0.2]"
      and tstart = 0 and evs = "[]"]
  from inst h1 h2
  have a: "\<exists>k. 0 < k \<and> k \<le> length (fifo ?s) \<and> str_in ?m (concat (take k (fifo ?s)))"
    by blast
  from inst h1 h3 h6 h7 h9
  have "\<exists>i s' before after.
       wait_for_string ?m ?s (([], 0) # quiet [0.1, 0.2]) =
         Some (Inr PyNone, s', drop 2 (quiet [0.1, 0.2])) \<and>
       concat (take 2 (fifo ?s)) = before @ ?m @ after \<and> length before = i \<and>
       (\<forall>j<i. \<not> prefix ?m (drop j (concat (take 2 (fifo ?s))))) \<and>
       fifo s' = after # drop 2 (fifo ?s) @ arrived (([], 0) # take 2 (quiet [0.1, 0.2]))"
    by blast
  then have b: "\<exists>i s' before after.
       wait_for_string ?m ?s (([], 0) # quiet [0.1, 0.2]) =
         Some (Inr PyNone, s', drop 2 (quiet [0.1, 0.2])) \<and>
       concat (take 2 (fifo ?s)) = before @ ?m @ after \<and> length before = i \<and>
       fifo s' = after # drop 2 (fifo ?s) @ arrived (([], 0) # take 2 (quiet [0.1, 0.2]))"
    by blast
  from h1 h2 h3 h4 h8 a b show ?thesis by (intro conjI)
qed

lemma str_in_Nil: "str_in [] data"
  by (cases data) (simp_all add: str_in_def)

lemma wait_loop_timeout_unfound:
  "wait_loop string tstart data s ticks = Some (Inl (ConError m), s', rest) \<Longrightarrow>
   \<exists>used popped. ticks = used @ rest \<and> fifo s @ arrived used = popped @ fifo s' \<and>
     (\<forall>k. 0 < k \<and> k \<le> length popped \<longrightarrow>
        \<not> str_in string (data @ concat (take k popped)))"
proof (induction ticks arbitrary: data s)
  case Nil
  then show ?case by (simp add: wait_loop.simps)
next
  case (Cons tick ticks)
  obtain evs now where tick: "tick = (evs, now)" by (cases tick)
  let ?s = "arrive s evs"
  note run = Cons.prems [unfolded tick wait_loop_Cons]
  consider (exp) "expired s tstart now"
    | (wait) "\<not> expired s tstart now" "fifo s @ msgs evs = []"
    | (found) c cs i where "\<not> expired s tstart now" "fifo s @ msgs evs = c # cs"
        "str_find string (data @ c) = Some i"
    | (more) c cs where "\<not> expired s tstart now" "fifo s @ msgs evs = c # cs"
        "str_find string (data @ c) = None"
  proof (cases "fifo s @ msgs evs")
    case Nil
    with that show ?thesis by blast
  next
    case (Cons c cs)
    with that show ?thesis by (cases "str_find string (data @ c)") blast+
  qed
  then show ?case
  proof cases
    case exp
    with run have "s' = ?s" "rest = ticks" by simp_all
    then have "tick # ticks = [tick] @ rest \<and> fifo s @ arrived [tick] = [] @ fifo s' \<and>
     (\<forall>k. 0 < k \<and> k \<le> length ([] :: str list) \<longrightarrow>
        \<not> str_in string (data @ concat (take k [])))"
      by (simp add: tick)
    then show ?thesis by blast
  next
    case found
    with run show ?thesis by (simp split: if_splits)
  next
    case wait
    let ?w = "?s\<lparr>calls := calls ?s @ [Wait (timeout s - (now - tstart))]\<rparr>"
    from run wait have "wait_loop string tstart data ?w ticks = Some (Inl (ConError m), s', rest)"
      by simp
    from Cons.IH [OF this] obtain used popped where
      u: "ticks = used @ rest" "fifo ?w @ arrived used = popped @ fifo s'"
        "\<forall>k. 0 < k \<and> k \<le> length popped \<longrightarrow> \<not> str_in string (data @ concat (take k popped))"
      by blast
    from u(2) wait(2) have "fifo s @ arrived (tick # used) = popped @ fifo s'"
      by (simp add: tick)
    with u(1,3) have "tick # ticks = (tick # used) @ rest \<and>
      fifo s @ arrived (tick # used) = popped @ fifo s' \<and>
      (\<forall>k. 0 < k \<and> k \<le> length popped \<longrightarrow> \<not> str_in string (data @ concat (take k popped)))"
      by simp
    then show ?thesis by blast
  next
    case more
    let ?p = "?s\<lparr>fifo := cs\<rparr>"
    from run more have "wait_loop string tstart (data @ c) ?p ticks =
        Some (Inl (ConError m), s', rest)"
      by simp
    from Cons.IH [OF this] obtain used popped where
      u: "ticks = used @ rest" "fifo ?p @ arrived used = popped @ fifo s'"
        "\<forall>k. 0 < k \<and> k \<le> length popped \<longrightarrow>
           \<not> str_in string ((data @ c) @ concat (take k popped))"
      by blast
    have "fifo s @ arrived (tick # used) = (fifo s @ msgs evs) @ arrived used"
      by (simp add: tick)
    also have "\<dots> = (c # cs) @ arrived used"
      by (simp only: more(2))
    also have "\<dots> = (c # popped) @ fifo s'"
      using u(2) by simp
    finally have queue: "fifo s @ arrived (tick # used) = (c # popped) @ fifo s'" .
    have unfound: "\<not> str_in string (data @ concat (take k (c # popped)))"
      if k: "0 < k \<and> k \<le> length (c # popped)" for k
    proof -
      from k obtain k' where k': "k = Suc k'" by (cases k) auto
      show ?thesis
      proof (cases "k' = 0")
        case True
        with k' more(3) show ?thesis by (simp add: str_in_def)
      next
        case False
        with k k' have "0 < k' \<and> k' \<le> length popped" by simp
        with u(3) have "\<not> str_in string ((data @ c) @ concat (take k' popped))" by blast
        with k' show ?thesis by simp
      qed
    qed
    from u(1) queue unfound have "tick # ticks = (tick # used) @ rest \<and>
      fifo s @ arrived (tick # used) = (c # popped) @ fifo s' \<and>
      (\<forall>k. 0 < k \<and> k \<le> length (c # popped) \<longrightarrow>
         \<not> str_in string (data @ concat (take k (c # popped))))"
      by simp
    then show ?thesis by blast
  qed
qed

subsection \<open>Timeouts of the marker wait\<close>

text \<open>
  C3: \<^verbatim>\<open>wait_for_string\<close> raises the timeout error, a \<^verbatim>\<open>ConError\<close> whose
  message holds the awaited string, exactly when a clock reading gives
  \<^verbatim>\<open>remaining_time < 0\<close> before the marker is found in the accumulated data.
  When the call returns, it has dequeued the chunks \<open>popped\<close> and its outcome is
  that error if and only if its last reading was past the deadline, no earlier
  one having been; in that case the marker was in the accumulated data after
  none of the dequeues, and otherwise it is in the accumulated data and the call
  returns \<^verbatim>\<open>None\<close> (for the empty marker, \<^verbatim>\<open>split\<close> raises). If a non-empty
  marker is in the first \<open>k\<close> queued chunks and none of the first \<open>k\<close> readings is
  past the deadline, the call returns \<^verbatim>\<open>None\<close> and not the error; a schedule
  that holds a reading past the deadline makes the call return; and \<^verbatim>\<open>read\<close>
  never raises the error.
\<close>

theorem wait_for_string_timeout_iff:
  "(wait_for_string string s ticks = Some (r, s', rest) \<longrightarrow>
      (\<exists>evs tstart used popped q.
         ticks = (evs, tstart) # used @ rest \<and> used \<noteq> [] \<and>
         fifo s @ arrived ((evs, tstart) # used) = popped @ q \<and>
         (\<forall>tk \<in> set (butlast used). \<not> expired s tstart (snd tk)) \<and>
         (\<forall>j. 0 < j \<and> j < length popped \<longrightarrow> \<not> str_in string (concat (take j popped))) \<and>
         (r = Inl (ConError (timeout_message string))) = expired s tstart (snd (last used)) \<and>
         (\<forall>m. r = Inl (ConError m) \<longrightarrow> m = timeout_message string) \<and>
         (expired s tstart (snd (last used)) \<longrightarrow>
            fifo s' = q \<and> (popped \<noteq> [] \<longrightarrow> \<not> str_in string (concat popped))) \<and>
         (\<not> expired s tstart (snd (last used)) \<longrightarrow>
            popped \<noteq> [] \<and> str_in string (concat popped) \<and>
            (string \<noteq> [] \<longrightarrow> r = Inr PyNone)))) \<and>
   (string \<noteq> [] \<and> k \<le> length (fifo s) \<and> str_in string (concat (take k (fifo s))) \<and>
    k \<le> length loop \<and> (\<forall>tk \<in> set (take k loop). \<not> expired s tstart (snd tk)) \<longrightarrow>
      (\<exists>s' rest. wait_for_string string s ((evs, tstart) # loop) = Some (Inr PyNone, s', rest))) \<and>
   ((\<exists>tk \<in> set loop. expired s tstart (snd tk)) \<longrightarrow>
      (\<exists>res. wait_for_string string s ((evs, tstart) # loop) = Some res)) \<and>
   str_in string (timeout_message string) \<and>
   read sz s ticks \<noteq> Some (Inl (ConError m), s', rest)"
proof -
  have returned: "\<exists>evs tstart used popped q.
         ticks = (evs, tstart) # used @ rest \<and> used \<noteq> [] \<and>
         fifo s @ arrived ((evs, tstart) # used) = popped @ q \<and>
         (\<forall>tk \<in> set (butlast used). \<not> expired s tstart (snd tk)) \<and>
         (\<forall>j. 0 < j \<and> j < length popped \<longrightarrow> \<not> str_in string (concat (take j popped))) \<and>
         (r = Inl (ConError (timeout_message string))) = expired s tstart (snd (last used)) \<and>
         (\<forall>m. r = Inl (ConError m) \<longrightarrow> m = timeout_message string) \<and>
         (expired s tstart (snd (last used)) \<longrightarrow>
            fifo s' = q \<and> (popped \<noteq> [] \<longrightarrow> \<not> str_in string (concat popped))) \<and>
         (\<not> expired s tstart (snd (last used)) \<longrightarrow>
            popped \<noteq> [] \<and> str_in string (concat popped) \<and>
            (string \<noteq> [] \<longrightarrow> r = Inr PyNone))"
    if run: "wait_for_string string s ticks = Some (r, s', rest)"
  proof -
    from run obtain evs tstart loop where ticks: "ticks = (evs, tstart) # loop"
      by (cases ticks) auto
    with run have loop: "wait_loop string tstart [] (arrive s evs) loop = Some (r, s', rest)"
      by simp
    from wait_loop_outcome [OF loop] obtain used popped q where
      u: "loop = used @ rest" "used \<noteq> []"
        "fifo (arrive s evs) @ arrived used = popped @ q"
        "\<forall>tk \<in> set (butlast used). \<not> expired s tstart (snd tk)"
        "\<forall>j. 0 < j \<and> j < length popped \<longrightarrow> \<not> str_in string ([] @ concat (take j popped))"
      and r: "case r of
           Inl e \<Rightarrow>
             fifo s' = q \<and>
             (if expired s tstart (snd (last used))
              then e = ConError (timeout_message string)
              else e = ValueError \<and> string = [] \<and> popped \<noteq> [])
         | Inr v \<Rightarrow>
             v = PyNone \<and> string \<noteq> [] \<and> \<not> expired s tstart (snd (last used)) \<and>
             popped \<noteq> [] \<and>
             (\<exists>i. str_find string ([] @ concat popped) = Some i \<and>
                  fifo s' = drop (i + length string) ([] @ concat popped) # q)"
      unfolding expired_arrive by blast
    from u(3) have queue: "fifo s @ arrived ((evs, tstart) # used) = popped @ q"
      by simp
    from u(5) have early: "\<forall>j. 0 < j \<and> j < length popped \<longrightarrow>
        \<not> str_in string (concat (take j popped))"
      by simp
    from r have iff: "(r = Inl (ConError (timeout_message string))) =
        expired s tstart (snd (last used))"
      and msg: "\<forall>m. r = Inl (ConError m) \<longrightarrow> m = timeout_message string"
      by (cases r; auto split: if_splits)+
    have late: "fifo s' = q \<and> (popped \<noteq> [] \<longrightarrow> \<not> str_in string (concat popped))"
      if e: "expired s tstart (snd (last used))"
    proof -
      from iff e have t: "r = Inl (ConError (timeout_message string))" by simp
      with r have q: "fifo s' = q" by simp
      from loop t wait_loop_timeout_unfound
        [of string tstart "[]" "arrive s evs" loop "timeout_message string" s' rest]
      obtain used' popped' where
        v: "loop = used' @ rest" "fifo (arrive s evs) @ arrived used' = popped' @ fifo s'"
          "\<forall>k. 0 < k \<and> k \<le> length popped' \<longrightarrow>
             \<not> str_in string ([] @ concat (take k popped'))"
        by blast
      from u(1) v(1) have "used' = used" by simp
      with v(2) u(3) q have "popped' = popped" by simp
      with v(3) have "popped \<noteq> [] \<longrightarrow> \<not> str_in string (concat popped)"
        by (cases popped) auto
      with q show ?thesis by simp
    qed
    have timely: "popped \<noteq> [] \<and> str_in string (concat popped) \<and>
        (string \<noteq> [] \<longrightarrow> r = Inr PyNone)"
      if "\<not> expired s tstart (snd (last used))"
    proof (cases r)
      case (Inl e)
      with r that have "string = []" "popped \<noteq> []" by simp_all
      with str_in_Nil [of "concat popped"] show ?thesis by simp
    next
      case (Inr v)
      with r obtain i where "v = PyNone" "popped \<noteq> []"
        "str_find string (concat popped) = Some i" by auto
      with Inr show ?thesis by (simp add: str_in_def)
    qed
    from ticks u(1,2,4) queue early iff msg late timely show ?thesis
      by blast
  qed
  have found: "\<exists>s' rest. wait_for_string string s ((evs, tstart) # loop) =
      Some (Inr PyNone, s', rest)"
    if a: "string \<noteq> [] \<and> k \<le> length (fifo s) \<and> str_in string (concat (take k (fifo s))) \<and>
      k \<le> length loop \<and> (\<forall>tk \<in> set (take k loop). \<not> expired s tstart (snd tk))"
  proof -
    let ?s = "arrive s evs"
    let ?q = "take k (fifo s)"
    from a have k: "length ?q = k" by simp
    from a have 0: "string \<noteq> []" by blast
    have 1: "fifo ?s = ?q @ (drop k (fifo s) @ msgs evs)" by simp
    from 0 have 2: "\<not> str_in string []" by (rule not_str_in_Nil)
    from a have 3: "str_in string ([] @ concat ?q)" by simp
    from a have 4: "length ?q \<le> length loop" by simp
    from a have 5: "\<forall>tk \<in> set (take (length ?q) loop). \<not> expired ?s tstart (snd tk)"
      by (simp only: k expired_arrive) blast
    from wait_loop_finds [OF 0 1 2 3 4 5] show ?thesis
      by auto
  qed
  have returns: "\<exists>res. wait_for_string string s ((evs, tstart) # loop) = Some res"
    if "\<exists>tk \<in> set loop. expired s tstart (snd tk)"
  proof -
    from that have "\<exists>tk \<in> set loop. expired (arrive s evs) tstart (snd tk)"
      by simp
    from wait_loop_returns [OF this] show ?thesis by simp
  qed
  have reads: "read sz s ticks \<noteq> Some (Inl (ConError m), s', rest)"
  proof (cases ticks)
    case Nil
    then show ?thesis by simp
  next
    case (Cons tick loop)
    then show ?thesis
      by (cases tick) (auto simp: utf8_encode_not_ConError split: option.splits)
  qed
  from returned found returns timeout_message_carries [of string] reads
  show ?thesis by blast
qed

text \<open>
  Two runs under one theorem. With a timeout of 0.2 s and the queue
  \<^verbatim>\<open>["ab", "X"]\<close>, the reading 0.3 comes after one dequeue: the error is raised
  and the chunk that holds the marker stays queued. With the queue \<^verbatim>\<open>["x"]\<close> and
  the marker \<^verbatim>\<open>"x"\<close>, the marker is found at the reading 0.1 and the call returns
  \<^verbatim>\<open>None\<close>, although the next reading of the schedule is past the deadline.
\<close>

theorem wait_for_string_timeout_iff_witness:
  "wait_for_string (ascii ''X'') (queued [ascii ''ab'', ascii ''X''] 0.2)
     (quiet [0, 0.1, 0.3, 9]) =
     Some (Inl (ConError (timeout_message (ascii ''X''))),
           queued [ascii ''X''] 0.2, quiet [9]) \<and>
   (\<exists>evs tstart used popped q.
      quiet [0, 0.1, 0.3, 9] = (evs, tstart) # used @ quiet [9] \<and> used \<noteq> [] \<and>
      fifo (queued [ascii ''ab'', ascii ''X''] 0.2) @ arrived ((evs, tstart) # used) =
        popped @ q \<and>
      expired (queued [ascii ''ab'', ascii ''X''] 0.2) tstart (snd (last used)) \<and>
      fifo (queued [ascii ''X''] 0.2) = q \<and>
      (popped = [] \<or> \<not> str_in (ascii ''X'') (concat popped))) \<and>
   (\<exists>tk \<in> set (quiet [0.1, 0.3, 9]).
      expired (queued [ascii ''ab'', ascii ''X''] 0.2) 0 (snd tk)) \<and>
   (\<exists>res. wait_for_string (ascii ''X'') (queued [ascii ''ab'', ascii ''X''] 0.2)
      (([], 0) # quiet [0.1, 0.3, 9]) = Some res) \<and>
   ascii ''x'' \<noteq> [] \<and>
   str_in (ascii ''x'') (concat (take 1 (fifo (queued [ascii ''x''] 1)))) \<and>
   \<not> expired (queued [ascii ''x''] 1) 0 0.1 \<and>
   expired (queued [ascii ''x''] 1) 0 5 \<and>
   (\<exists>s' rest. wait_for_string (ascii ''x'') (queued [ascii ''x''] 1)
      (([], 0) # quiet [0.1, 5]) = Some (Inr PyNone, s', rest)) \<and>
   wait_for_string (ascii ''x'') (queued [ascii ''x''] 1) (quiet [0, 0.1, 5]) =
     Some (Inr PyNone, queued [[]] 1, quiet [5])"
proof -
  let ?late = "queued [ascii ''ab'', ascii ''X''] 0.2"
  let ?err = "Inl (ConError (timeout_message (ascii ''X''))) :: exn + retval"
  have a1: "wait_for_string (ascii ''X'') ?late (quiet [0, 0.1, 0.3, 9]) =
     Some (?err, queued [ascii ''X''] 0.2, quiet [9])"
    by code_simp
  have a2: "\<exists>tk \<in> set (quiet [0.1, 0.3, 9]). expired ?late 0 (snd tk)"
    by (simp add: quiet_def expired_def queued_def)
  note late = wait_for_string_timeout_iff [where string = "ascii ''X''" and s = ?late
      and ticks = "quiet [0, 0.1, 0.3, 9]" and r = ?err
      and s' = "queued [ascii ''X''] 0.2" and rest = "quiet [9]"
      and loop = "quiet [0.1, 0.3, 9]" and tstart = 0 and evs = "[]"]
  from late [THEN conjunct1, THEN mp, OF a1] obtain evs tstart used popped q where
    u: "quiet [0, 0.1, 0.3, 9] = (evs, tstart) # used @ quiet [9]" "used \<noteq> []"
      "fifo ?late @ arrived ((evs, tstart) # used) = popped @ q"
      "(?err = Inl (ConError (timeout_message (ascii ''X'')))) =
         expired ?late tstart (snd (last used))"
      "expired ?late tstart (snd (last used)) \<longrightarrow>
         fifo (queued [ascii ''X''] 0.2) = q \<and>
         (popped \<noteq> [] \<longrightarrow> \<not> str_in (ascii ''X'') (concat popped))"
    by (elim exE conjE) (rule that)
  from u(4) have "expired ?late tstart (snd (last used))" by simp
  with u have a3: "\<exists>evs tstart used popped q.
      quiet [0, 0.1, 0.3, 9] = (evs, tstart) # used @ quiet [9] \<and> used \<noteq> [] \<and>
      fifo ?late @ arrived ((evs, tstart) # used) = popped @ q \<and>
      expired ?late tstart (snd (last used)) \<and>
      fifo (queued [ascii ''X''] 0.2) = q \<and>
      (popped = [] \<or> \<not> str_in (ascii ''X'') (concat popped))"
    by blast
  from late [THEN conjunct2, THEN conjunct2, THEN conjunct1, THEN mp, OF a2]
  have a4: "\<exists>res. wait_for_string (ascii ''X'') ?late
      (([], 0) # quiet [0.1, 0.3, 9]) = Some res" .
  let ?found = "queued [ascii ''x''] 1"
  have b1: "ascii ''x'' \<noteq> []" by (simp add: ascii_def)
  have b2: "str_in (ascii ''x'') (concat (take 1 (fifo ?found)))" by code_simp
  have b3: "\<not> expired ?found 0 0.1" "expired ?found 0 5"
    by (simp_all add: expired_def queued_def)
  have b4: "1 \<le> length (fifo ?found)" "1 \<le> length (quiet [0.1, 5])"
    by (simp_all add: queued_def quiet_def)
  from b3 have b5: "\<forall>tk \<in> set (take 1 (quiet [0.1, 5])). \<not> expired ?found 0 (snd tk)"
    by (simp add: quiet_def)
  from b1 b2 b4 b5 have b: "ascii ''x'' \<noteq> [] \<and> 1 \<le> length (fifo ?found) \<and>
      str_in (ascii ''x'') (concat (take 1 (fifo ?found))) \<and>
      1 \<le> length (quiet [0.1, 5]) \<and>
      (\<forall>tk \<in> set (take 1 (quiet [0.1, 5])). \<not> expired ?found 0 (snd tk))"
    by (intro conjI)
  from wait_for_string_timeout_iff [where string = "ascii ''x''" and s = ?found and k = 1
      and loop = "quiet [0.1, 5]" and tstart = 0 and evs = "[]",
      THEN conjunct2, THEN conjunct1, THEN mp, OF b]
  have b6: "\<exists>s' rest. wait_for_string (ascii ''x'') ?found (([], 0) # quiet [0.1, 5]) =
      Some (Inr PyNone, s', rest)" .
  have b7: "wait_for_string (ascii ''x'') ?found (quiet [0, 0.1, 5]) =
     Some (Inr PyNone, queued [[]] 1, quiet [5])"
    by code_simp
  from a1 a3 a2 a4 b1 b2 b3 b6 b7 show ?thesis by (intro conjI)
qed

end
